theory Spec2Isabelle
  imports Complex_Main "HOL-Library.Sublist" "HOL-Library.AList" "HOL-Library.Multiset"
begin

section \<open>Hotel room search: the hybrid ranking of \<open>src/hybrid_search.py\<close>\<close>

text \<open>
  The theory embeds the class \<open>HybridSearch\<close>: \<open>get_embedding\<close>,
  \<open>cosine_similarity\<close>, \<open>keyword_search\<close>, \<open>semantic_search\<close> and
  \<open>hybrid_search\<close>.

  Conventions of the embedding.
  \<^item> A Python \<open>float\<close> is a \<open>real\<close>: sums of \<open>1.0\<close>, the divisions and the weighted sum
    are read as exact arithmetic; rounding is not modelled. The one float that is not a
    number, the \<open>nan\<close> that \<open>cosine_similarity\<close> returns for a zero vector, is modelled:
    a similarity is a \<open>real option\<close>, \<open>None\<close> the \<open>nan\<close>.
  \<^item> A Python \<open>int\<close> is an \<open>int\<close>, a \<open>str\<close> is a \<open>string\<close>, a list is a list. The builtin
    \<open>str.lower\<close> is a parameter of the model.
  \<^item> The JSON objects of the query and of each analysed image are read only through
    \<open>.get(key, default)\<close> on five keys. They are records whose fields are options:
    \<open>None\<close> is an absent key, \<open>Some v\<close> a value of the type the code uses it at
    (a string, an integer, a list of strings). Objects with values of other types, on
    which the string and comparison operations of the code raise, are not modelled.
  \<^item> A \<open>dict\<close> whose order of iteration matters is an association list in order of
    insertion; the corpus \<open>vision_results\<close> is such a list, its keys distinct.
  \<^item> The only exception of the model is the \<open>ValueError\<close> of \<open>np.dot\<close> on vectors of
    different lengths; a function that can raise it returns a sum, \<open>Inl\<close> the error,
    paired with the instance as the exception leaves it. The embedding provider is an
    oracle that always answers.
\<close>

subsection \<open>Strings\<close>

text \<open>
  A \<open>str\<close> is the list of the bytes of its UTF-8 encoding: equality, emptiness and the
  substring test \<open>in\<close> on the bytes agree with Python's on the code points.

  \<open>str.lower()\<close> is a builtin of Python that follows the Unicode case mappings. It is a
  parameter of the model, \<open>lower\<close>, of every function that calls it. What the theorems
  need to know of it is stated by \<open>str_lower\<close> below: on ASCII text it maps the letters
  \<open>A\<close> to \<open>Z\<close> to \<open>a\<close> to \<open>z\<close> and keeps every other character, as \<open>ascii_lower\<close> does.
\<close>

definition letters :: "(char \<times> char) list" where
  "letters = zip ''ABCDEFGHIJKLMNOPQRSTUVWXYZ'' ''abcdefghijklmnopqrstuvwxyz''"

definition ascii_lower_char :: "char \<Rightarrow> char" where
  "ascii_lower_char c = (case map_of letters c of None \<Rightarrow> c | Some l \<Rightarrow> l)"

definition ascii_lower :: "string \<Rightarrow> string" where
  "ascii_lower s = map ascii_lower_char s"

type_synonym lowering = "string \<Rightarrow> string"

text \<open>The characters below 128, and the strings made of them.\<close>

definition is_ascii :: "string \<Rightarrow> bool" where
  "is_ascii s \<longleftrightarrow> list_all (\<lambda>c. \<not> digit7 c) s"

definition str_lower :: "lowering \<Rightarrow> bool" where
  "str_lower lower \<longleftrightarrow> (\<forall>s. is_ascii s \<longrightarrow> lower s = ascii_lower s)"

text \<open>\<open>a in b\<close> on strings: \<open>a\<close> occurs in \<open>b\<close> as a contiguous substring.\<close>

fun str_in :: "string \<Rightarrow> string \<Rightarrow> bool" where
  "str_in a [] = (a = [])"
| "str_in a (c # cs) = (prefix a (c # cs) \<or> str_in a cs)"

subsection \<open>The data model\<close>

text \<open>\<open>d.get(key, default)\<close> for a field of a JSON object.\<close>

definition get_or :: "'a option \<Rightarrow> 'a \<Rightarrow> 'a" where
  "get_or field dflt = (case field of None \<Rightarrow> dflt | Some v \<Rightarrow> v)"

text \<open>
  The query produced by \<open>QueryAgent\<close> and the description of an image produced by
  \<open>VisionAgent\<close> have the same five keys.
\<close>

record room_json =
  room_type :: "string option"
  max_capacity :: "int option"
  view_type :: "string option"
  features :: "string list option"
  description :: "string option"

text \<open>The entries of \<open>match_details\<close>.\<close>

record text_match =
  tm_query :: string
  tm_vision :: string
  tm_match :: bool

record capacity_match =
  cm_query :: int
  cm_vision :: int
  cm_match :: bool

record features_match =
  fm_query :: "string list"
  fm_vision :: "string list"
  fm_matches :: "string list"

text \<open>
  \<open>match_details\<close> is a dict with a fixed set of possible keys; a field is \<open>None\<close>
  while its key is absent. The last three keys are set by \<open>hybrid_search\<close>.
\<close>

record match_details =
  md_query_description :: "string option"
  md_room_type :: "text_match option"
  md_max_capacity :: "capacity_match option"
  md_view_type :: "text_match option"
  md_features :: "features_match option"
  md_semantic_score :: "real option"
  md_keyword_score :: "real option"
  md_combined_score :: "real option"

definition empty_details :: match_details where
  "empty_details =
     \<lparr>md_query_description = None, md_room_type = None, md_max_capacity = None,
      md_view_type = None, md_features = None, md_semantic_score = None,
      md_keyword_score = None, md_combined_score = None\<rparr>"

type_synonym corpus = "(string \<times> room_json) list"

text \<open>The loop variables \<open>score\<close>, \<open>max_score\<close> and \<open>match_details\<close> of one image.\<close>

type_synonym scoring = "real \<times> real \<times> match_details"

subsection \<open>\<open>keyword_search\<close>: the body of the loop\<close>

definition room_type_step :: "lowering \<Rightarrow> string \<Rightarrow> room_json \<Rightarrow> scoring \<Rightarrow> scoring" where
  "room_type_step lower query_room_type vision_json = (\<lambda>(score, max_score, details).
     if query_room_type \<noteq> [] \<and> query_room_type \<noteq> ''any'' then
       (let vision_room_type = lower (get_or (room_type vision_json) []);
            room_match = str_in query_room_type vision_room_type
        in ((if room_match then score + 1 else score), max_score + 1,
            details\<lparr>md_room_type := Some \<lparr>tm_query = query_room_type,
              tm_vision = vision_room_type, tm_match = room_match\<rparr>\<rparr>))
     else (score, max_score, details))"

definition max_capacity_step :: "int \<Rightarrow> room_json \<Rightarrow> scoring \<Rightarrow> scoring" where
  "max_capacity_step query_max_capacity vision_json = (\<lambda>(score, max_score, details).
     if query_max_capacity > 0 then
       (let vision_max_capacity = get_or (max_capacity vision_json) 0;
            capacity_match = (vision_max_capacity \<ge> query_max_capacity)
        in ((if capacity_match then score + 1 else score), max_score + 1,
            details\<lparr>md_max_capacity := Some \<lparr>cm_query = query_max_capacity,
              cm_vision = vision_max_capacity, cm_match = capacity_match\<rparr>\<rparr>))
     else (score, max_score, details))"

definition view_type_step :: "lowering \<Rightarrow> string \<Rightarrow> room_json \<Rightarrow> scoring \<Rightarrow> scoring" where
  "view_type_step lower query_view_type vision_json = (\<lambda>(score, max_score, details).
     if query_view_type \<noteq> [] \<and> query_view_type \<notin> set [''any'', ''standard''] then
       (let vision_view_type = lower (get_or (view_type vision_json) []);
            view_match = str_in query_view_type vision_view_type
        in ((if view_match then score + 1 else score), max_score + 1,
            details\<lparr>md_view_type := Some \<lparr>tm_query = query_view_type,
              tm_vision = vision_view_type, tm_match = view_match\<rparr>\<rparr>))
     else (score, max_score, details))"

text \<open>
  The inner loop \<open>for vision_feature in vision_features\<close>: at the first feature of the
  image that contains \<open>feature\<close> it appends, adds \<open>1.0\<close> and breaks.
\<close>

fun vision_feature_loop :: "string \<Rightarrow> string list \<Rightarrow> string list \<times> real \<Rightarrow> string list \<times> real" where
  "vision_feature_loop feature [] (matched_features, score) = (matched_features, score)"
| "vision_feature_loop feature (vision_feature # rest) (matched_features, score) =
     (if str_in feature vision_feature then (matched_features @ [feature], score + 1)
      else vision_feature_loop feature rest (matched_features, score))"

text \<open>The outer loop \<open>for feature in query_features\<close>.\<close>

fun query_feature_loop :: "string list \<Rightarrow> string list \<Rightarrow> string list \<times> real \<Rightarrow> string list \<times> real" where
  "query_feature_loop [] vision_features acc = acc"
| "query_feature_loop (feature # rest) vision_features acc =
     query_feature_loop rest vision_features (vision_feature_loop feature vision_features acc)"

definition features_step :: "lowering \<Rightarrow> string list \<Rightarrow> room_json \<Rightarrow> scoring \<Rightarrow> scoring" where
  "features_step lower query_features vision_json = (\<lambda>(score, max_score, details).
     if query_features \<noteq> [] then
       (let vision_features = map lower (get_or (features vision_json) []);
            (matched_features, score') =
               query_feature_loop query_features vision_features ([], score)
        in (score', max_score + real (length query_features),
            details\<lparr>md_features := Some \<lparr>fm_query = query_features,
              fm_vision = vision_features, fm_matches = matched_features\<rparr>\<rparr>))
     else (score, max_score, details))"

text \<open>The lowered query fields that \<open>keyword_search\<close> extracts before its loop.\<close>

definition query_room_type :: "lowering \<Rightarrow> room_json \<Rightarrow> string" where
  "query_room_type lower query_json = lower (get_or (room_type query_json) [])"

definition query_max_capacity :: "room_json \<Rightarrow> int" where
  "query_max_capacity query_json = get_or (max_capacity query_json) 0"

definition query_view_type :: "lowering \<Rightarrow> room_json \<Rightarrow> string" where
  "query_view_type lower query_json = lower (get_or (view_type query_json) [])"

definition query_features :: "lowering \<Rightarrow> room_json \<Rightarrow> string list" where
  "query_features lower query_json = map lower (get_or (features query_json) [])"

definition query_description :: "room_json \<Rightarrow> string" where
  "query_description query_json = get_or (description query_json) []"

text \<open>One iteration up to the normalisation: the final \<open>score\<close>, \<open>max_score\<close>, \<open>match_details\<close>.\<close>

definition score_image :: "lowering \<Rightarrow> room_json \<Rightarrow> room_json \<Rightarrow> scoring" where
  "score_image lower query_json vision_json =
     features_step lower (query_features lower query_json) vision_json
       (view_type_step lower (query_view_type lower query_json) vision_json
         (max_capacity_step (query_max_capacity query_json) vision_json
           (room_type_step lower (query_room_type lower query_json) vision_json
             (0, 0, empty_details\<lparr>md_query_description :=
                Some (query_description query_json)\<rparr>))))"

definition score_of :: "lowering \<Rightarrow> room_json \<Rightarrow> room_json \<Rightarrow> real" where
  "score_of lower query_json vision_json = fst (score_image lower query_json vision_json)"

definition max_score_of :: "lowering \<Rightarrow> room_json \<Rightarrow> room_json \<Rightarrow> real" where
  "max_score_of lower query_json vision_json = fst (snd (score_image lower query_json vision_json))"

definition details_of :: "lowering \<Rightarrow> room_json \<Rightarrow> room_json \<Rightarrow> match_details" where
  "details_of lower query_json vision_json = snd (snd (score_image lower query_json vision_json))"

definition normalized_score :: "lowering \<Rightarrow> room_json \<Rightarrow> room_json \<Rightarrow> real" where
  "normalized_score lower query_json vision_json =
     (if max_score_of lower query_json vision_json > 0
      then score_of lower query_json vision_json / max_score_of lower query_json vision_json else 0)"

subsection \<open>\<open>keyword_search\<close>\<close>

text \<open>
  \<open>sorted(xs, key=k, reverse=True)\<close>: Python's sort is stable, also when reversed, so
  entries of equal key keep their order; \<open>sort_key\<close> is the stable insertion sort.
\<close>

definition sorted_reverse :: "('a \<Rightarrow> real) \<Rightarrow> 'a list \<Rightarrow> 'a list" where
  "sorted_reverse k xs = sort_key (\<lambda>x. - k x) xs"

type_synonym keyword_result = "string \<times> real \<times> match_details"

fun keyword_loop :: "lowering \<Rightarrow> room_json \<Rightarrow> real \<Rightarrow> corpus \<Rightarrow> keyword_result list \<Rightarrow> keyword_result list" where
  "keyword_loop lower query_json min_score [] results = results"
| "keyword_loop lower query_json min_score ((url, vision_json) # rest) results =
     keyword_loop lower query_json min_score rest
       (if normalized_score lower query_json vision_json \<ge> min_score
        then results @ [(url, normalized_score lower query_json vision_json,
                         details_of lower query_json vision_json)]
        else results)"

definition keyword_search :: "lowering \<Rightarrow> room_json \<Rightarrow> corpus \<Rightarrow> real \<Rightarrow> keyword_result list" where
  "keyword_search lower query_json vision_results min_score =
     sorted_reverse (\<lambda>x. fst (snd x)) (keyword_loop lower query_json min_score vision_results [])"

subsection \<open>The instance, the embedding provider and \<open>get_embedding\<close>\<close>

text \<open>
  A vector is a one-dimensional \<open>numpy\<close> array of floats. The embedding provider
  (\<open>client.embeddings.create\<close>) is outside the program: \<open>provider n s\<close> is the vector it
  answers to the request for the text \<open>s\<close> when \<open>n\<close> requests were made before, so two
  requests for one text may be answered differently.
\<close>

type_synonym vec = "real list"

type_synonym provider = "nat \<Rightarrow> string \<Rightarrow> vec"

text \<open>
  The fields of a \<open>HybridSearch\<close> instance, and with them the list of the texts sent to
  the provider so far, in order (the provider's side of the calls).
\<close>

record hybrid_search_state =
  embedding_cache :: "string \<rightharpoonup> vec"
  keyword_weight :: real
  semantic_weight :: real
  provider_requests :: "string list"

text \<open>\<open>__init__\<close>; the defaults of its parameters are \<open>0.7\<close> and \<open>0.3\<close>.\<close>

definition init :: "real \<Rightarrow> real \<Rightarrow> hybrid_search_state" where
  "init kw sw =
     \<lparr>embedding_cache = Map.empty, keyword_weight = kw, semantic_weight = sw,
      provider_requests = []\<rparr>"

definition init_default :: hybrid_search_state where
  "init_default = init (7 / 10) (3 / 10)"

definition get_embedding :: "provider \<Rightarrow> string \<Rightarrow> hybrid_search_state \<Rightarrow> vec \<times> hybrid_search_state" where
  "get_embedding prov s self =
     (case embedding_cache self s of
        Some cached \<Rightarrow> (cached, self)
      | None \<Rightarrow>
          (let embedding = prov (length (provider_requests self)) s
           in (embedding,
               self\<lparr>embedding_cache := (embedding_cache self)(s \<mapsto> embedding),
                 provider_requests := provider_requests self @ [s]\<rparr>)))"

subsection \<open>\<open>cosine_similarity\<close>\<close>

text \<open>
  \<open>np.dot\<close> of two one-dimensional arrays raises \<open>ValueError\<close> when their lengths differ.
  \<open>np.linalg.norm\<close> is the Euclidean norm.
\<close>

datatype error = ValueError

definition dot :: "vec \<Rightarrow> vec \<Rightarrow> error + real" where
  "dot a b =
     (if length a = length b then Inr (sum_list (map (\<lambda>(x, y). x * y) (zip a b)))
      else Inl ValueError)"

definition norm_vec :: "vec \<Rightarrow> real" where
  "norm_vec a = sqrt (sum_list (map (\<lambda>x. x * x) a))"

text \<open>
  A float that may be \<open>nan\<close>: \<open>None\<close> is \<open>nan\<close>, \<open>Some x\<close> the number \<open>x\<close>. Every
  comparison with \<open>nan\<close> is false.
\<close>

type_synonym pyfloat = "real option"

definition float_ge :: "pyfloat \<Rightarrow> real \<Rightarrow> bool" where
  "float_ge x y = (case x of None \<Rightarrow> False | Some v \<Rightarrow> v \<ge> y)"

definition float_value :: "pyfloat \<Rightarrow> real" where
  "float_value x = (case x of None \<Rightarrow> 0 | Some v \<Rightarrow> v)"

text \<open>
  The division of \<open>cosine_similarity\<close>. When the product of the norms is zero, one of
  the vectors is zero and so is the dot product: \<open>numpy\<close> divides \<open>0.0\<close> by \<open>0.0\<close> and
  answers \<open>nan\<close>, with a warning and no exception.
\<close>

definition cosine_similarity :: "vec \<Rightarrow> vec \<Rightarrow> error + pyfloat" where
  "cosine_similarity a b =
     (case dot a b of
        Inl e \<Rightarrow> Inl e
      | Inr d \<Rightarrow>
          (let n = norm_vec a * norm_vec b in Inr (if n = 0 then None else Some (d / n))))"

subsection \<open>\<open>semantic_search\<close>\<close>

type_synonym semantic_result = "string \<times> pyfloat"

text \<open>
  The loop over \<open>vision_results.items()\<close>. An exception leaves the loop; the instance
  keeps the cache entries written before it.
\<close>

fun semantic_loop :: "provider \<Rightarrow> vec \<Rightarrow> corpus \<Rightarrow> semantic_result list \<Rightarrow> hybrid_search_state
    \<Rightarrow> (error + semantic_result list) \<times> hybrid_search_state" where
  "semantic_loop prov query_embedding [] results self = (Inr results, self)"
| "semantic_loop prov query_embedding ((url, vision_json) # rest) results self =
     (let vision_description = get_or (description vision_json) []
      in if vision_description = [] then semantic_loop prov query_embedding rest results self
         else (case get_embedding prov vision_description self of
                 (vision_embedding, self') \<Rightarrow>
                   (case cosine_similarity query_embedding vision_embedding of
                      Inl e \<Rightarrow> (Inl e, self')
                    | Inr similarity \<Rightarrow>
                        semantic_loop prov query_embedding rest
                          (results @ [(url, similarity)]) self')))"

text \<open>
  \<open>sorted(results, key=lambda x: x[1], reverse=True)\<close> on similarities. Python's sort
  compares the keys with \<open><\<close>. When no key is \<open>nan\<close> the result is the stable sort by
  descending key. When a key is \<open>nan\<close> the comparisons are not an order and the result
  is a rearrangement that depends on the sorting algorithm: it is \<open>nan_order\<close>, a
  parameter of the model.
\<close>

type_synonym nan_sorting = "semantic_result list \<Rightarrow> semantic_result list"

definition has_nan :: "semantic_result list \<Rightarrow> bool" where
  "has_nan results = list_ex (\<lambda>r. snd r = None) results"

definition sorted_similarities :: "nan_sorting \<Rightarrow> semantic_result list \<Rightarrow> semantic_result list" where
  "sorted_similarities nan_order results =
     (if has_nan results then nan_order results
      else sorted_reverse (\<lambda>x. float_value (snd x)) results)"

definition semantic_search :: "provider \<Rightarrow> nan_sorting \<Rightarrow> room_json \<Rightarrow> corpus
    \<Rightarrow> hybrid_search_state \<Rightarrow> (error + semantic_result list) \<times> hybrid_search_state" where
  "semantic_search prov nan_order query_json vision_results self =
     (let query_description = get_or (description query_json) []
      in if query_description = [] then (Inr [], self)
         else (case get_embedding prov query_description self of
                 (query_embedding, self') \<Rightarrow>
                   (case semantic_loop prov query_embedding vision_results [] self' of
                      (Inl e, self'') \<Rightarrow> (Inl e, self'')
                    | (Inr results, self'') \<Rightarrow>
                        (Inr (sorted_similarities nan_order results), self''))))"

subsection \<open>\<open>hybrid_search\<close>\<close>

text \<open>
  A dict as an association list in order of insertion: \<open>d[k] = v\<close> replaces the value of
  a key that is there and appends a new key; a comprehension inserts its pairs in order.
\<close>

type_synonym ('k, 'v) dict = "('k \<times> 'v) list"

definition dict_of :: "('k \<times> 'v) list \<Rightarrow> ('k, 'v) dict" where
  "dict_of kvs = fold (\<lambda>(k, v) d. AList.update k v d) kvs []"

definition dict_get :: "('k, 'v) dict \<Rightarrow> 'k \<Rightarrow> 'v \<Rightarrow> 'v" where
  "dict_get d k dflt = (case map_of d k of None \<Rightarrow> dflt | Some v \<Rightarrow> v)"

definition keys :: "('k, 'v) dict \<Rightarrow> 'k list" where
  "keys d = map fst d"

definition dict_values :: "('k, 'v) dict \<Rightarrow> 'v list" where
  "dict_values d = map snd d"

definition keyword_scores :: "keyword_result list \<Rightarrow> (string, real) dict" where
  "keyword_scores keyword_results = dict_of (map (\<lambda>(url, score, _). (url, score)) keyword_results)"

definition keyword_details :: "keyword_result list \<Rightarrow> (string, match_details) dict" where
  "keyword_details keyword_results =
     dict_of (map (\<lambda>(url, _, details). (url, details)) keyword_results)"

text \<open>
  The comprehension with the condition \<open>score >= semantic_min_score\<close>: a \<open>nan\<close> does not
  pass, so the values of the mapping are numbers.
\<close>

definition semantic_scores :: "semantic_result list \<Rightarrow> real \<Rightarrow> (string, real) dict" where
  "semantic_scores semantic_results semantic_min_score =
     dict_of (map (\<lambda>(url, score). (url, float_value score))
       (filter (\<lambda>(url, score). float_ge score semantic_min_score) semantic_results))"

text \<open>
  \<open>set(keyword_scores.keys()) | set(semantic_scores.keys())\<close>. A Python set is iterated in
  an order the language does not fix: the set is the duplicate-free list of its elements
  and \<open>order\<close>, a parameter of the model, rearranges it into the order of iteration.
\<close>

definition all_urls :: "(string list \<Rightarrow> string list) \<Rightarrow> (string, real) dict \<Rightarrow> (string, real) dict
    \<Rightarrow> string list" where
  "all_urls order ks ss = order (remdups (keys ks @ keys ss))"

text \<open>
  The body of the loop \<open>for url in all_urls\<close>: the tuple stored under \<open>url\<close>. A url
  with no keyword result gets a fresh empty dict of details.
\<close>

definition combined_entry :: "hybrid_search_state \<Rightarrow> (string, real) dict
    \<Rightarrow> (string, match_details) dict \<Rightarrow> (string, real) dict \<Rightarrow> string \<Rightarrow> keyword_result" where
  "combined_entry self ks kd ss url =
     (let keyword_score = dict_get ks url 0;
          semantic_score = dict_get ss url 0;
          combined_score =
            keyword_weight self * keyword_score + semantic_weight self * semantic_score;
          details = dict_get kd url empty_details;
          details' = details\<lparr>md_semantic_score := Some semantic_score,
            md_keyword_score := Some keyword_score, md_combined_score := Some combined_score\<rparr>
      in (url, combined_score, details'))"

text \<open>The loop, which fills the dict \<open>combined_results\<close>.\<close>

fun combine_loop :: "hybrid_search_state \<Rightarrow> (string, real) dict \<Rightarrow> (string, match_details) dict
    \<Rightarrow> (string, real) dict \<Rightarrow> string list \<Rightarrow> (string, keyword_result) dict
    \<Rightarrow> (string, keyword_result) dict" where
  "combine_loop self ks kd ss [] combined_results = combined_results"
| "combine_loop self ks kd ss (url # rest) combined_results =
     combine_loop self ks kd ss rest
       (AList.update url (combined_entry self ks kd ss url) combined_results)"

text \<open>
  \<open>xs[:n]\<close>: the first \<open>n\<close> entries, and for a negative \<open>n\<close> all but the last \<open>-n\<close>.
\<close>

definition slice_to :: "'a list \<Rightarrow> int \<Rightarrow> 'a list" where
  "slice_to xs n = (if n \<ge> 0 then take (nat n) xs else take (length xs - nat (- n)) xs)"

text \<open>\<open>hybrid_search\<close> up to \<open>sorted_results\<close>, the list before the slice.\<close>

definition sorted_results :: "lowering \<Rightarrow> provider \<Rightarrow> (string list \<Rightarrow> string list) \<Rightarrow> nan_sorting
    \<Rightarrow> room_json \<Rightarrow> corpus
    \<Rightarrow> real \<Rightarrow> real \<Rightarrow> hybrid_search_state
    \<Rightarrow> (error + keyword_result list) \<times> hybrid_search_state" where
  "sorted_results lower prov order nan_order query_json vision_results keyword_min_score semantic_min_score self =
     (let keyword_results = keyword_search lower query_json vision_results keyword_min_score;
          ks = keyword_scores keyword_results;
          kd = keyword_details keyword_results
      in case semantic_search prov nan_order query_json vision_results self of
           (Inl e, self') \<Rightarrow> (Inl e, self')
         | (Inr semantic_results, self') \<Rightarrow>
             (let ss = semantic_scores semantic_results semantic_min_score;
                  combined_results =
                    combine_loop self' ks kd ss (all_urls order ks ss) []
              in (Inr (sorted_reverse (\<lambda>x. fst (snd x)) (dict_values combined_results)),
                  self')))"

definition hybrid_search :: "lowering \<Rightarrow> provider \<Rightarrow> (string list \<Rightarrow> string list) \<Rightarrow> nan_sorting
    \<Rightarrow> room_json \<Rightarrow> corpus
    \<Rightarrow> real \<Rightarrow> real \<Rightarrow> int \<Rightarrow> hybrid_search_state
    \<Rightarrow> (error + keyword_result list) \<times> hybrid_search_state" where
  "hybrid_search lower prov order nan_order query_json vision_results keyword_min_score semantic_min_score
       max_results self =
     (case sorted_results lower prov order nan_order query_json vision_results keyword_min_score
             semantic_min_score self of
        (Inl e, self') \<Rightarrow> (Inl e, self')
      | (Inr results, self') \<Rightarrow> (Inr (slice_to results max_results), self'))"

subsection \<open>Notions of the specification\<close>

text \<open>
  The definitions below are not code: they say in the specification's words what the
  theorems compare the code with. A field of the query is active when the query puts a
  constraint on it.
\<close>

definition room_type_active :: "lowering \<Rightarrow> room_json \<Rightarrow> bool" where
  "room_type_active lower q \<longleftrightarrow>
     lower (get_or (room_type q) []) \<noteq> [] \<and> lower (get_or (room_type q) []) \<noteq> ''any''"

definition capacity_active :: "room_json \<Rightarrow> bool" where
  "capacity_active q \<longleftrightarrow> get_or (max_capacity q) 0 > 0"

definition view_type_active :: "lowering \<Rightarrow> room_json \<Rightarrow> bool" where
  "view_type_active lower q \<longleftrightarrow>
     lower (get_or (view_type q) []) \<noteq> [] \<and> lower (get_or (view_type q) []) \<noteq> ''any'' \<and>
     lower (get_or (view_type q) []) \<noteq> ''standard''"

text \<open>The matches, on lowered strings; \<open>sublist\<close> is the contiguous substring relation.\<close>

definition room_type_matches :: "lowering \<Rightarrow> room_json \<Rightarrow> room_json \<Rightarrow> bool" where
  "room_type_matches lower q v \<longleftrightarrow>
     sublist (lower (get_or (room_type q) [])) (lower (get_or (room_type v) []))"

definition capacity_matches :: "room_json \<Rightarrow> room_json \<Rightarrow> bool" where
  "capacity_matches q v \<longleftrightarrow> get_or (max_capacity v) 0 \<ge> get_or (max_capacity q) 0"

definition view_type_matches :: "lowering \<Rightarrow> room_json \<Rightarrow> room_json \<Rightarrow> bool" where
  "view_type_matches lower q v \<longleftrightarrow>
     sublist (lower (get_or (view_type q) [])) (lower (get_or (view_type v) []))"

text \<open>
  Case-insensitive matching, said without a lowering: two characters are the same
  letter when they are equal or are the capital and the small form of one ASCII letter
  (a pair of \<open>letters\<close>),
  and \<open>a\<close> occurs in \<open>b\<close> up to case when a contiguous part of \<open>b\<close> has the letters of \<open>a\<close>.
\<close>

definition same_letter :: "char \<Rightarrow> char \<Rightarrow> bool" where
  "same_letter c d \<longleftrightarrow> c = d \<or> (c, d) \<in> set letters \<or> (d, c) \<in> set letters"

definition ci_substring :: "string \<Rightarrow> string \<Rightarrow> bool" where
  "ci_substring a b \<longleftrightarrow> (\<exists>ps mid ss. b = ps @ mid @ ss \<and> list_all2 same_letter a mid)"

text \<open>\<open>a\<close> and \<open>b\<close> are the same text up to case.\<close>

definition ci_equal :: "string \<Rightarrow> string \<Rightarrow> bool" where
  "ci_equal a b \<longleftrightarrow> list_all2 same_letter a b"

text \<open>\<open>g\<close> is a substring of some feature of the list \<open>vfs\<close>.\<close>

definition matched_in :: "string list \<Rightarrow> string \<Rightarrow> bool" where
  "matched_in vfs g \<longleftrightarrow> list_ex (sublist g) vfs"

text \<open>The lowered features of an image, the list \<open>vision_features\<close> of the code.\<close>

definition vision_features :: "lowering \<Rightarrow> room_json \<Rightarrow> string list" where
  "vision_features lower v = map lower (get_or (features v) [])"

text \<open>A candidate that \<open>semantic_search\<close> does not skip.\<close>

definition has_description :: "string \<times> room_json \<Rightarrow> bool" where
  "has_description c \<longleftrightarrow> get_or (description (snd c)) [] \<noteq> []"

text \<open>
  The cosine similarity of two vectors of one length, in the words of the
  specification: the dot product over the product of the Euclidean norms,
  \<open>\<Sum> a\<^sub>i b\<^sub>i / (\<surd>(\<Sum> a\<^sub>i\<^sup>2) \<surd>(\<Sum> b\<^sub>i\<^sup>2))\<close>. It is \<open>nan\<close> when one of the vectors is zero.
\<close>

definition cosine :: "vec \<Rightarrow> vec \<Rightarrow> real" where
  "cosine a b =
     (\<Sum>i<length a. a ! i * b ! i) /
     (sqrt (\<Sum>i<length a. (a ! i)\<^sup>2) * sqrt (\<Sum>i<length b. (b ! i)\<^sup>2))"

definition zero_vector :: "vec \<Rightarrow> bool" where
  "zero_vector a \<longleftrightarrow> list_all (\<lambda>x. x = 0) a"

definition similarity :: "vec \<Rightarrow> vec \<Rightarrow> pyfloat" where
  "similarity a b = (if zero_vector a \<or> zero_vector b then None else Some (cosine a b))"

text \<open>
  The semantic result \<open>r\<close> is the candidate \<open>c\<close> scored by the cosine similarity of the
  query's embedding \<open>qe\<close> and the embedding that the cache of \<open>st\<close> holds for the
  candidate's description.
\<close>

definition scored_by :: "hybrid_search_state \<Rightarrow> vec \<Rightarrow> semantic_result \<Rightarrow> string \<times> room_json \<Rightarrow> bool" where
  "scored_by st qe r c \<longleftrightarrow>
     fst r = fst c \<and>
     (\<exists>ve. embedding_cache st (get_or (description (snd c)) []) = Some ve \<and>
           length ve = length qe \<and> snd r = similarity qe ve)"

text \<open>
  The texts sent to the provider are pairwise different and each of them is in the
  cache: no text is embedded twice.
\<close>

definition embedded_once :: "hybrid_search_state \<Rightarrow> bool" where
  "embedded_once st \<longleftrightarrow>
     distinct (provider_requests st) \<and> set (provider_requests st) \<subseteq> dom (embedding_cache st)"

text \<open>The strings of a JSON object, the ones that \<open>keyword_search\<close> reads, are ASCII text.\<close>

definition ascii_json :: "room_json \<Rightarrow> bool" where
  "ascii_json j \<longleftrightarrow>
     is_ascii (get_or (room_type j) []) \<and> is_ascii (get_or (view_type j) []) \<and>
     list_all is_ascii (get_or (features j) [])"


subsection \<open>The example of the source\<close>

text \<open>
  The query and three of the images of the example at the end of \<open>hybrid_search.py\<close>
  (descriptions shortened), used to evaluate the theorems on concrete inputs.
\<close>

definition example_query :: room_json where
  "example_query =
     \<lparr>room_type = Some ''double'', max_capacity = Some 2, view_type = Some ''sea view'',
      features = Some [''balcony'', ''air conditioning''],
      description = Some ''Double room with sea view''\<rparr>"

definition image1 :: room_json where
  "image1 =
     \<lparr>room_type = Some ''double'', max_capacity = Some 2, view_type = Some ''sea view'',
      features = Some [''private balcony'', ''air conditioning'', ''flat-screen TV''],
      description = Some ''Spacious double room''\<rparr>"

definition image2 :: room_json where
  "image2 =
     \<lparr>room_type = Some ''double'', max_capacity = Some 2, view_type = Some ''garden view'',
      features = Some [''balcony'', ''air conditioning'', ''desk''],
      description = Some ''Double room overlooking the garden''\<rparr>"

definition image3 :: room_json where
  "image3 =
     \<lparr>room_type = Some ''single'', max_capacity = Some 1, view_type = Some ''sea view'',
      features = Some [''balcony'', ''air conditioning''],
      description = Some ''Comfortable single room''\<rparr>"

text \<open>A query that constrains nothing.\<close>

definition wildcard_query :: room_json where
  "wildcard_query =
     \<lparr>room_type = Some ''any'', max_capacity = Some 0, view_type = Some ''standard'',
      features = Some [], description = Some []\<rparr>"

text \<open>A query that asks for one feature twice, and an image without a balcony.\<close>

definition twice_query :: room_json where
  "twice_query =
     \<lparr>room_type = None, max_capacity = None, view_type = None,
      features = Some [''balcony'', ''pool'', ''balcony''], description = None\<rparr>"

definition image_no_balcony :: room_json where
  "image_no_balcony =
     \<lparr>room_type = Some ''double'', max_capacity = Some 2, view_type = Some ''sea view'',
      features = Some [''air conditioning''], description = Some ''Plain double room''\<rparr>"

text \<open>
  A query and an image whose strings mix capitals and small letters: the query asks for
  a \<open>Double\<close> room for two with \<open>SEA VIEW\<close>, a \<open>Balcony\<close> and a \<open>Pool\<close>.
\<close>

definition mixed_query :: room_json where
  "mixed_query =
     \<lparr>room_type = Some ''Double'', max_capacity = Some 2, view_type = Some ''SEA VIEW'',
      features = Some [''Balcony'', ''Pool''], description = Some ''A double room''\<rparr>"

definition mixed_image :: room_json where
  "mixed_image =
     \<lparr>room_type = Some ''Deluxe DOUBLE room'', max_capacity = Some 3,
      view_type = Some ''Partial sea view'',
      features = Some [''Air Conditioning'', ''private BALCONY''],
      description = Some ''Deluxe double room''\<rparr>"

text \<open>
  A lowering that agrees with \<open>str.lower\<close> on more than ASCII: it also maps the capital
  E with acute accent (U+00C9, in UTF-8 the bytes \<open>C3 89\<close>) to the small one (U+00E9, the
  bytes \<open>C3 A9\<close>). The query asks for the room type \<open>CAF\<close> followed by the capital
  accented E, and the room type of the image is \<open>caf\<close>, the small accented e and
  \<open> suite\<close>.
\<close>

fun latin_lower :: "string \<Rightarrow> string" where
  "latin_lower [] = []"
| "latin_lower [c] = [ascii_lower_char c]"
| "latin_lower (c # d # cs) =
     (if c = CHR 0xC3 \<and> d = CHR 0x89 then CHR 0xC3 # CHR 0xA9 # latin_lower cs
      else ascii_lower_char c # latin_lower (d # cs))"

definition accent_query :: room_json where
  "accent_query =
     \<lparr>room_type = Some (''CAF'' @ [CHR 0xC3, CHR 0x89]), max_capacity = None,
      view_type = None, features = None, description = None\<rparr>"

definition accent_image :: room_json where
  "accent_image =
     \<lparr>room_type = Some (''caf'' @ [CHR 0xC3, CHR 0xA9] @ '' suite''), max_capacity = None,
      view_type = None, features = None, description = None\<rparr>"

text \<open>
  The provider answers with vectors of one dimension \<open>d\<close>, and the cache holds only such
  vectors: then \<open>np.dot\<close> never raises.
\<close>

definition dimension_ok :: "nat \<Rightarrow> provider \<Rightarrow> hybrid_search_state \<Rightarrow> bool" where
  "dimension_ok d prov st \<longleftrightarrow>
     (\<forall>n s. length (prov n s) = d) \<and>
     (\<forall>s v. embedding_cache st s = Some v \<longrightarrow> length v = d)"

text \<open>
  A provider with two-dimensional answers that depend on the number of earlier requests
  only, and the corpus of the example.
\<close>

definition example_provider :: provider where
  "example_provider n s = (if even n then [1, 0] else [0, 1])"

definition example_corpus :: corpus where
  "example_corpus = [(''image1.jpg'', image1), (''image2.jpg'', image2), (''image3.jpg'', image3)]"

text \<open>A corpus whose second image has an empty description.\<close>

definition blank_corpus :: corpus where
  "blank_corpus =
     [(''image1.jpg'', image1), (''blank.jpg'', image3\<lparr>description := Some []\<rparr>),
      (''image2.jpg'', image2)]"

text \<open>
  A provider whose answers are not unit vectors: \<open>[3, 4]\<close> to the first request,
  \<open>[4, 3]\<close> to the second, \<open>[6, 8]\<close> to the third and the zero vector from then on.
\<close>

definition scaled_provider :: provider where
  "scaled_provider n s =
     (if n = 0 then [3, 4] else if n = 1 then [4, 3] else if n = 2 then [6, 8] else [0, 0])"

section \<open>Lemmas\<close>

subsection \<open>Strings and the feature loops\<close>

lemma str_in_sublist: "str_in a b = sublist a b"
  by (induction b) (auto simp: sublist_Cons_right)

lemma vision_feature_loop_eq:
  "vision_feature_loop f vfs (m, s) =
     (if list_ex (str_in f) vfs then (m @ [f], s + 1) else (m, s))"
  by (induction vfs) auto

lemma query_feature_loop_eq:
  "query_feature_loop qfs vfs (m, s) =
     (m @ filter (\<lambda>f. list_ex (str_in f) vfs) qfs,
      s + real (length (filter (\<lambda>f. list_ex (str_in f) vfs) qfs)))"
  by (induction qfs arbitrary: m s) (auto simp: vision_feature_loop_eq)

lemma list_ex_str_in: "list_ex (str_in g) vfs = matched_in vfs g"
  by (simp add: matched_in_def str_in_sublist [abs_def])

subsection \<open>The steps of the loop body, one component at a time\<close>

lemma room_type_step_score:
  "fst (room_type_step lower qr v x) =
     fst x + (if qr \<noteq> [] \<and> qr \<noteq> ''any'' \<and> str_in qr (lower (get_or (room_type v) []))
              then 1 else 0)"
  by (cases x) (simp add: room_type_step_def Let_def)

lemma room_type_step_max:
  "fst (snd (room_type_step lower qr v x)) =
     fst (snd x) + (if qr \<noteq> [] \<and> qr \<noteq> ''any'' then 1 else 0)"
  by (cases x) (simp add: room_type_step_def Let_def)

lemma max_capacity_step_score:
  "fst (max_capacity_step qc v x) =
     fst x + (if qc > 0 \<and> get_or (max_capacity v) 0 \<ge> qc then 1 else 0)"
  by (cases x) (simp add: max_capacity_step_def Let_def)

lemma max_capacity_step_max:
  "fst (snd (max_capacity_step qc v x)) = fst (snd x) + (if qc > 0 then 1 else 0)"
  by (cases x) (simp add: max_capacity_step_def Let_def)

lemma view_type_step_score:
  "fst (view_type_step lower qv v x) =
     fst x + (if qv \<noteq> [] \<and> qv \<noteq> ''any'' \<and> qv \<noteq> ''standard''
                 \<and> str_in qv (lower (get_or (view_type v) [])) then 1 else 0)"
  by (cases x) (simp add: view_type_step_def Let_def)

lemma view_type_step_max:
  "fst (snd (view_type_step lower qv v x)) =
     fst (snd x) + (if qv \<noteq> [] \<and> qv \<noteq> ''any'' \<and> qv \<noteq> ''standard'' then 1 else 0)"
  by (cases x) (simp add: view_type_step_def Let_def)

lemma features_step_score:
  "fst (features_step lower qf v x) =
     fst x + real (length (filter (matched_in (vision_features lower v)) qf))"
  by (cases x)
     (simp add: features_step_def Let_def query_feature_loop_eq list_ex_str_in
        vision_features_def)

lemma features_step_max:
  "fst (snd (features_step lower qf v x)) = fst (snd x) + real (length qf)"
  by (cases x) (simp add: features_step_def Let_def query_feature_loop_eq)

subsection \<open>\<open>score\<close> and \<open>max_score\<close> in closed form\<close>

lemma score_of_eq:
  "score_of lower q v =
     (if room_type_active lower q \<and> room_type_matches lower q v then 1 else 0)
   + (if capacity_active q \<and> capacity_matches q v then 1 else 0)
   + (if view_type_active lower q \<and> view_type_matches lower q v then 1 else 0)
   + real (length (filter (matched_in (vision_features lower v)) (query_features lower q)))"
  unfolding score_of_def score_image_def
  by (simp only: features_step_score view_type_step_score max_capacity_step_score
        room_type_step_score fst_conv add_0 room_type_active_def room_type_matches_def
        capacity_active_def capacity_matches_def view_type_active_def view_type_matches_def
        query_room_type_def query_max_capacity_def query_view_type_def str_in_sublist
        conj_assoc)

lemma max_score_of_eq:
  "max_score_of lower q v =
     (if room_type_active lower q then 1 else 0) + (if capacity_active q then 1 else 0)
   + (if view_type_active lower q then 1 else 0) + real (length (query_features lower q))"
  unfolding max_score_of_def score_image_def
  by (simp only: features_step_max view_type_step_max max_capacity_step_max
        room_type_step_max fst_conv snd_conv add_0 room_type_active_def
        capacity_active_def view_type_active_def
        query_room_type_def query_max_capacity_def query_view_type_def conj_assoc)

lemma score_nonneg: "0 \<le> score_of lower q v"
  unfolding score_of_eq by simp

lemma max_score_nonneg: "0 \<le> max_score_of lower q v"
  unfolding max_score_of_eq by simp

lemma score_le_max: "score_of lower q v \<le> max_score_of lower q v"
proof -
  have "length (filter (matched_in (vision_features lower v)) (query_features lower q))
          \<le> length (query_features lower q)"
    by (rule length_filter_le)
  then show ?thesis
    unfolding score_of_eq max_score_of_eq by (simp add: add_mono)
qed

lemma normalized_score_bounds: "0 \<le> normalized_score lower q v \<and> normalized_score lower q v \<le> 1"
  using score_le_max [of lower q v] score_nonneg [of lower q v]
  by (simp add: normalized_score_def)

subsection \<open>\<open>match_details\<close> in closed form, and the loop of \<open>keyword_search\<close>\<close>

lemma room_type_step_details:
  "snd (snd (room_type_step lower qr v x)) =
     (if qr \<noteq> [] \<and> qr \<noteq> ''any''
      then (snd (snd x))\<lparr>md_room_type := Some \<lparr>tm_query = qr,
             tm_vision = lower (get_or (room_type v) []),
             tm_match = sublist qr (lower (get_or (room_type v) []))\<rparr>\<rparr>
      else snd (snd x))"
  by (cases x) (simp add: room_type_step_def Let_def str_in_sublist)

lemma max_capacity_step_details:
  "snd (snd (max_capacity_step qc v x)) =
     (if qc > 0
      then (snd (snd x))\<lparr>md_max_capacity := Some \<lparr>cm_query = qc,
             cm_vision = get_or (max_capacity v) 0,
             cm_match = (get_or (max_capacity v) 0 \<ge> qc)\<rparr>\<rparr>
      else snd (snd x))"
  by (cases x) (simp add: max_capacity_step_def Let_def)

lemma view_type_step_details:
  "snd (snd (view_type_step lower qv v x)) =
     (if qv \<noteq> [] \<and> qv \<noteq> ''any'' \<and> qv \<noteq> ''standard''
      then (snd (snd x))\<lparr>md_view_type := Some \<lparr>tm_query = qv,
             tm_vision = lower (get_or (view_type v) []),
             tm_match = sublist qv (lower (get_or (view_type v) []))\<rparr>\<rparr>
      else snd (snd x))"
  by (cases x) (simp add: view_type_step_def Let_def str_in_sublist)

lemma features_step_details:
  "snd (snd (features_step lower qf v x)) =
     (if qf \<noteq> []
      then (snd (snd x))\<lparr>md_features := Some \<lparr>fm_query = qf,
             fm_vision = vision_features lower v,
             fm_matches = filter (matched_in (vision_features lower v)) qf\<rparr>\<rparr>
      else snd (snd x))"
  by (cases x)
     (simp add: features_step_def Let_def query_feature_loop_eq list_ex_str_in
        vision_features_def)

lemma details_of_eq:
  "details_of lower q v =
     \<lparr>md_query_description = Some (query_description q),
      md_room_type =
        (if room_type_active lower q
         then Some \<lparr>tm_query = query_room_type lower q, tm_vision = lower (get_or (room_type v) []),
                tm_match = room_type_matches lower q v\<rparr>
         else None),
      md_max_capacity =
        (if capacity_active q
         then Some \<lparr>cm_query = query_max_capacity q, cm_vision = get_or (max_capacity v) 0,
                cm_match = capacity_matches q v\<rparr>
         else None),
      md_view_type =
        (if view_type_active lower q
         then Some \<lparr>tm_query = query_view_type lower q, tm_vision = lower (get_or (view_type v) []),
                tm_match = view_type_matches lower q v\<rparr>
         else None),
      md_features =
        (if query_features lower q \<noteq> []
         then Some \<lparr>fm_query = query_features lower q, fm_vision = vision_features lower v,
                fm_matches = filter (matched_in (vision_features lower v)) (query_features lower q)\<rparr>
         else None),
      md_semantic_score = None, md_keyword_score = None, md_combined_score = None\<rparr>"
  unfolding details_of_def score_image_def
  by (simp add: features_step_details view_type_step_details max_capacity_step_details
        room_type_step_details empty_details_def room_type_active_def room_type_matches_def
        capacity_active_def capacity_matches_def view_type_active_def view_type_matches_def
        query_room_type_def query_max_capacity_def query_view_type_def)

lemma length_filter_mono:
  "(\<And>x. x \<in> set xs \<Longrightarrow> P x \<Longrightarrow> Q x) \<Longrightarrow> length (filter P xs) \<le> length (filter Q xs)"
  by (induction xs) auto

lemma matched_in_append: "matched_in vfs g \<Longrightarrow> matched_in (vfs @ extra) g"
  by (auto simp: matched_in_def list_ex_iff)

lemma count_list_filter:
  "count_list (filter P xs) x = (if P x then count_list xs x else 0)"
  by (induction xs) auto

subsection \<open>Lowering and matching up to case\<close>


lemma str_lower_ascii_lower: "str_lower ascii_lower"
  by (simp add: str_lower_def)

lemma letters_facts:
  "distinct (map fst letters)" "distinct (map snd letters)"
  "set (map fst letters) \<inter> set (map snd letters) = {}"
  by (simp_all add: letters_def)

lemma same_letter_lower: "ascii_lower_char c = ascii_lower_char d \<longleftrightarrow> same_letter c d"
proof -
  have some: "map_of letters x = Some y \<longleftrightarrow> (x, y) \<in> set letters" for x y
    using letters_facts(1) by (rule map_of_eq_Some_iff)
  have none: "map_of letters x = None \<longleftrightarrow> (\<forall>y. (x, y) \<notin> set letters)" for x
    by (force simp: map_of_eq_None_iff)
  have inj: "x = x'" if "(x, y) \<in> set letters" "(x', y) \<in> set letters" for x x' y
    using letters_facts(2) that
    by (metis (no_types, lifting) distinct_map fst_conv inj_onD snd_conv)
  have apart: "(y, z) \<notin> set letters" if "(x, y) \<in> set letters" for x y z
    using letters_facts(3) that by (force simp: disjoint_iff)
  show ?thesis
  proof (cases "map_of letters c")
    case None
    then have lc: "ascii_lower_char c = c" by (simp add: ascii_lower_char_def)
    have nc: "(c, y) \<notin> set letters" for y using None none by blast
    show ?thesis
    proof (cases "map_of letters d")
      case None
      then have ld: "ascii_lower_char d = d" by (simp add: ascii_lower_char_def)
      have "(d, y) \<notin> set letters" for y using None none by blast
      with nc show ?thesis by (simp add: lc ld same_letter_def)
    next
      case (Some l)
      then have ld: "ascii_lower_char d = l" by (simp add: ascii_lower_char_def)
      have dl: "(d, l) \<in> set letters" using Some some by blast
      have "c = l \<longleftrightarrow> (d, c) \<in> set letters"
        using dl eq_key_imp_eq_value [OF letters_facts(1)] by blast
      moreover have "c \<noteq> d" using nc dl by blast
      ultimately show ?thesis using nc by (simp add: lc ld same_letter_def)
    qed
  next
    case (Some l)
    then have lc: "ascii_lower_char c = l" by (simp add: ascii_lower_char_def)
    have cl: "(c, l) \<in> set letters" using Some some by blast
    show ?thesis
    proof (cases "map_of letters d")
      case None
      then have ld: "ascii_lower_char d = d" by (simp add: ascii_lower_char_def)
      have nd: "(d, y) \<notin> set letters" for y using None none by blast
      have "l = d \<longleftrightarrow> (c, d) \<in> set letters"
        using cl eq_key_imp_eq_value [OF letters_facts(1)] by blast
      moreover have "c \<noteq> d" using nd cl by blast
      ultimately show ?thesis using nd by (simp add: lc ld same_letter_def)
    next
      case (Some l')
      then have ld: "ascii_lower_char d = l'" by (simp add: ascii_lower_char_def)
      have dl: "(d, l') \<in> set letters" using Some some by blast
      have "l = l' \<longleftrightarrow> c = d"
        using cl dl inj eq_key_imp_eq_value [OF letters_facts(1)] by blast
      moreover have "(c, d) \<notin> set letters" using dl apart by blast
      moreover have "(d, c) \<notin> set letters" using cl apart by blast
      ultimately show ?thesis by (simp add: lc ld same_letter_def)
    qed
  qed
qed

lemma ascii_lower_eq: "ascii_lower a = ascii_lower b \<longleftrightarrow> list_all2 same_letter a b"
proof (induction a arbitrary: b)
  case Nil
  then show ?case by (simp add: ascii_lower_def)
next
  case (Cons x a)
  then show ?case by (cases b) (auto simp: ascii_lower_def same_letter_lower)
qed

lemma sublist_ascii_lower: "sublist (ascii_lower a) (ascii_lower b) \<longleftrightarrow> ci_substring a b"
proof
  assume "sublist (ascii_lower a) (ascii_lower b)"
  then obtain ps' ss' where "ascii_lower b = ps' @ ascii_lower a @ ss'"
    by (auto simp: sublist_def)
  then obtain ps rest where b: "b = ps @ rest" and "map ascii_lower_char rest = ascii_lower a @ ss'"
    unfolding ascii_lower_def by (metis map_eq_append_conv)
  then obtain mid ss where rest: "rest = mid @ ss" and "map ascii_lower_char mid = ascii_lower a"
    by (metis map_eq_append_conv)
  then have "list_all2 same_letter a mid"
    using ascii_lower_eq [of a mid] by (simp add: ascii_lower_def)
  with b rest show "ci_substring a b" unfolding ci_substring_def by blast
next
  assume "ci_substring a b"
  then obtain ps mid ss where b: "b = ps @ mid @ ss" and "list_all2 same_letter a mid"
    unfolding ci_substring_def by blast
  then have "ascii_lower mid = ascii_lower a" using ascii_lower_eq [of a mid] by simp
  then have "ascii_lower b = ascii_lower ps @ ascii_lower a @ ascii_lower ss"
    using b by (simp add: ascii_lower_def)
  then show "sublist (ascii_lower a) (ascii_lower b)" by (auto simp: sublist_def)
qed

lemma sublist_lower:
  assumes "str_lower lower" and "is_ascii a" and "is_ascii b"
  shows "sublist (lower a) (lower b) \<longleftrightarrow> ci_substring a b"
  using assms sublist_ascii_lower [of a b] by (simp add: str_lower_def)


lemma lower_ci_equal:
  assumes "str_lower lower" and "is_ascii a"
  shows "lower a \<noteq> [] \<longleftrightarrow> a \<noteq> []"
    and "lower a = ''any'' \<longleftrightarrow> ci_equal a ''any''"
    and "lower a = ''standard'' \<longleftrightarrow> ci_equal a ''standard''"
proof -
  have a: "lower a = ascii_lower a" using assms by (simp add: str_lower_def)
  show "lower a \<noteq> [] \<longleftrightarrow> a \<noteq> []" by (simp add: a ascii_lower_def)
  have "ascii_lower ''any'' = ''any''" "ascii_lower ''standard'' = ''standard''"
    by (simp_all add: ascii_lower_def ascii_lower_char_def letters_def)
  then show "lower a = ''any'' \<longleftrightarrow> ci_equal a ''any''"
    and "lower a = ''standard'' \<longleftrightarrow> ci_equal a ''standard''"
    using ascii_lower_eq [of a "''any''"] ascii_lower_eq [of a "''standard''"]
    by (simp_all add: a ci_equal_def)
qed

lemma matched_in_lower:
  assumes "str_lower lower" and "is_ascii f" and "list_all is_ascii vfs"
  shows "matched_in (map lower vfs) (lower f) \<longleftrightarrow> list_ex (ci_substring f) vfs"
  using assms sublist_lower [of lower f]
  by (auto simp: matched_in_def list_ex_iff list_all_iff)

lemma str_lower_latin_lower: "str_lower latin_lower"
proof -
  have "is_ascii s \<Longrightarrow> latin_lower s = ascii_lower s" for s
    by (induction s rule: latin_lower.induct) (auto simp: is_ascii_def ascii_lower_def)
  then show ?thesis by (simp add: str_lower_def)
qed

subsection \<open>The loop of \<open>keyword_search\<close> and the inactive query\<close>

lemma keyword_loop_eq:
  "keyword_loop lower q m vr res =
     res @ map (\<lambda>(u, v). (u, normalized_score lower q v, details_of lower q v))
            (filter (\<lambda>(u, v). normalized_score lower q v \<ge> m) vr)"
  by (induction vr arbitrary: res) auto



subsection \<open>Changing the features of a candidate or of the query\<close>

lemma extended_features_fields:
  "room_type (v\<lparr>features := fs\<rparr>) = room_type v"
  "max_capacity (v\<lparr>features := fs\<rparr>) = max_capacity v"
  "view_type (v\<lparr>features := fs\<rparr>) = view_type v"
  by simp_all

lemma score_of_extend:
  "score_of lower q v \<le> score_of lower q (v\<lparr>features := Some (get_or (features v) [] @ extra)\<rparr>)"
proof -
  let ?v' = "v\<lparr>features := Some (get_or (features v) [] @ extra)\<rparr>"
  have vf: "vision_features lower ?v' = vision_features lower v @ map lower extra"
    by (simp add: vision_features_def get_or_def)
  have "length (filter (matched_in (vision_features lower v)) (query_features lower q))
          \<le> length (filter (matched_in (vision_features lower ?v')) (query_features lower q))"
    unfolding vf by (rule length_filter_mono) (rule matched_in_append)
  then show ?thesis
    by (simp add: score_of_eq room_type_matches_def capacity_matches_def view_type_matches_def)
qed

lemma max_score_of_candidate: "max_score_of lower q v = max_score_of lower q v'"
  by (simp add: max_score_of_eq)

lemma without_features:
  "room_type_active lower (q\<lparr>features := None\<rparr>) = room_type_active lower q"
  "capacity_active (q\<lparr>features := None\<rparr>) = capacity_active q"
  "view_type_active lower (q\<lparr>features := None\<rparr>) = view_type_active lower q"
  "room_type_matches lower (q\<lparr>features := None\<rparr>) v = room_type_matches lower q v"
  "capacity_matches (q\<lparr>features := None\<rparr>) v = capacity_matches q v"
  "view_type_matches lower (q\<lparr>features := None\<rparr>) v = view_type_matches lower q v"
  "query_features lower (q\<lparr>features := None\<rparr>) = []"
  by (simp_all add: room_type_active_def capacity_active_def view_type_active_def
        room_type_matches_def capacity_matches_def view_type_matches_def query_features_def
        get_or_def)

subsection \<open>Sorting, \<open>get_embedding\<close> and the loop of \<open>semantic_search\<close>\<close>

lemma sorted_reverse_sorted: "sorted_wrt (\<lambda>x y. k x \<ge> k y) (sorted_reverse k xs)"
proof -
  have "sorted (map (\<lambda>x. - k x) (sort_key (\<lambda>x. - k x) xs))" by (rule sorted_sort_key)
  then show ?thesis by (simp add: sorted_reverse_def sorted_map)
qed

text \<open>Entries of equal key keep their order, as in Python's stable sort.\<close>

lemma sorted_reverse_stable:
  "filter (\<lambda>y. k y = c) (sorted_reverse k xs) = filter (\<lambda>y. k y = c) xs"
  using sort_key_stable [of "\<lambda>x. - k x" "- c" xs] by (simp add: sorted_reverse_def)

lemma mset_sorted_reverse: "mset (sorted_reverse k xs) = mset xs"
  by (simp add: sorted_reverse_def)

lemma set_sorted_reverse: "set (sorted_reverse k xs) = set xs"
  by (simp add: sorted_reverse_def)

lemma mset_sorted_similarities:
  "\<forall>xs. mset (nan_order xs) = mset xs \<Longrightarrow> mset (sorted_similarities nan_order rs) = mset rs"
  by (simp add: sorted_similarities_def mset_sorted_reverse)

lemma has_nan_mset: "mset xs = mset ys \<Longrightarrow> has_nan xs = has_nan ys"
  by (auto simp: has_nan_def list_ex_iff dest: mset_eq_setD)

lemma sorted_similarities_sorted:
  "\<not> has_nan rs \<Longrightarrow>
   sorted_wrt (\<lambda>x y. float_value (snd x) \<ge> float_value (snd y)) (sorted_similarities nan_order rs)"
  by (simp add: sorted_similarities_def sorted_reverse_sorted)

text \<open>The division of the code is the cosine similarity of the specification.\<close>

lemma dot_sum:
  "length a = length b \<Longrightarrow>
   sum_list (map (\<lambda>(x, y). x * y) (zip a b)) = (\<Sum>i<length a. a ! i * b ! i)"
proof (induction a arbitrary: b)
  case Nil
  then show ?case by simp
next
  case (Cons x a)
  then obtain y b' where b: "b = y # b'" by (cases b) auto
  with Cons show ?case by (simp add: sum.lessThan_Suc_shift del: sum.lessThan_Suc)
qed

lemma norm_vec_sum: "norm_vec a = sqrt (\<Sum>i<length a. (a ! i)\<^sup>2)"
  using dot_sum [of a a] by (simp add: norm_vec_def zip_same_conv_map comp_def power2_eq_square)

lemma norm_vec_zero: "norm_vec a = 0 \<longleftrightarrow> zero_vector a"
proof -
  have "sum_list (map (\<lambda>x. x * x) a) = 0 \<longleftrightarrow> list_all (\<lambda>x. x = 0) a"
  proof (induction a)
    case Nil
    then show ?case by simp
  next
    case (Cons x a)
    have nn: "0 \<le> sum_list (map (\<lambda>x. x * x) a)" by (rule sum_list_nonneg) auto
    have "x * x + sum_list (map (\<lambda>x. x * x) a) = 0 \<longleftrightarrow>
            x * x = 0 \<and> sum_list (map (\<lambda>x. x * x) a) = 0"
      using nn by (intro add_nonneg_eq_0_iff) auto
    with Cons show ?case by simp
  qed
  then show ?thesis by (simp add: norm_vec_def zero_vector_def)
qed

lemma cosine_similarity_eq:
  "cosine_similarity a b =
     (if length a = length b then Inr (similarity a b) else Inl ValueError)"
proof (cases "length a = length b")
  case False
  then show ?thesis by (simp add: cosine_similarity_def dot_def)
next
  case True
  have z: "norm_vec a * norm_vec b = 0 \<longleftrightarrow> zero_vector a \<or> zero_vector b"
    by (simp add: norm_vec_zero)
  have c: "sum_list (map (\<lambda>(x, y). x * y) (zip a b)) / (norm_vec a * norm_vec b) = cosine a b"
    by (simp only: cosine_def dot_sum [OF True] norm_vec_sum)
  show ?thesis
    using True z c by (simp add: cosine_similarity_def dot_def Let_def similarity_def)
qed

lemma cosine_similarity_Inr:
  "cosine_similarity a b = Inr s \<Longrightarrow> length b = length a \<and> s = similarity a b"
  by (auto simp: cosine_similarity_eq split: if_splits)

lemma get_embedding_cached:
  "embedding_cache st s = Some v \<Longrightarrow> get_embedding prov s st = (v, st)"
  by (simp add: get_embedding_def)

lemma get_embedding_stores:
  "get_embedding prov s st = (v, st') \<Longrightarrow> embedding_cache st' s = Some v"
  by (auto simp: get_embedding_def Let_def split: option.splits)

lemma get_embedding_mono:
  "get_embedding prov s st = (v, st') \<Longrightarrow> embedding_cache st \<subseteq>\<^sub>m embedding_cache st'"
  by (auto simp: get_embedding_def Let_def map_le_def split: option.splits)

lemma get_embedding_weights:
  "get_embedding prov s st = (v, st') \<Longrightarrow>
   keyword_weight st' = keyword_weight st \<and> semantic_weight st' = semantic_weight st"
  by (auto simp: get_embedding_def Let_def split: option.splits)

lemma scored_by_mono:
  "scored_by st qe r c \<Longrightarrow> embedding_cache st \<subseteq>\<^sub>m embedding_cache st' \<Longrightarrow> scored_by st' qe r c"
  unfolding scored_by_def map_le_def by (metis domI)

lemma semantic_loop_Inr:
  "semantic_loop prov qe vr res st = (Inr out, st') \<Longrightarrow>
   (\<exists>sims. out = res @ sims \<and> list_all2 (scored_by st' qe) sims (filter has_description vr)) \<and>
   embedding_cache st \<subseteq>\<^sub>m embedding_cache st' \<and>
   keyword_weight st' = keyword_weight st \<and> semantic_weight st' = semantic_weight st"
proof (induction vr arbitrary: res st)
  case Nil
  then show ?case by simp
next
  case (Cons c vr)
  obtain url v where c: "c = (url, v)" by (cases c)
  show ?case
  proof (cases "get_or (description v) [] = []")
    case True
    with Cons.prems c have "semantic_loop prov qe vr res st = (Inr out, st')" by simp
    from Cons.IH [OF this] True c show ?thesis by (simp add: has_description_def)
  next
    case False
    obtain ve st1 where ge: "get_embedding prov (get_or (description v) []) st = (ve, st1)"
      by (cases "get_embedding prov (get_or (description v) []) st")
    from Cons.prems c False ge obtain sim where
      cs: "cosine_similarity qe ve = Inr sim" and
      rest: "semantic_loop prov qe vr (res @ [(url, sim)]) st1 = (Inr out, st')"
      by (cases "cosine_similarity qe ve") auto
    from Cons.IH [OF rest] obtain sims where
      out: "out = (res @ [(url, sim)]) @ sims" and
      all: "list_all2 (scored_by st' qe) sims (filter has_description vr)" and
      mono: "embedding_cache st1 \<subseteq>\<^sub>m embedding_cache st'" and
      w: "keyword_weight st' = keyword_weight st1" "semantic_weight st' = semantic_weight st1"
      by blast
    have "scored_by st1 qe (url, sim) (url, v)"
      using get_embedding_stores [OF ge] cosine_similarity_Inr [OF cs]
      by (simp add: scored_by_def)
    then have hd: "scored_by st' qe (url, sim) (url, v)" using mono by (rule scored_by_mono)
    have "list_all2 (scored_by st' qe) ((url, sim) # sims) (filter has_description (c # vr))"
      using hd all False c by (simp add: has_description_def)
    moreover have "out = res @ (url, sim) # sims" using out by simp
    moreover have "embedding_cache st \<subseteq>\<^sub>m embedding_cache st'"
      using get_embedding_mono [OF ge] mono by (rule map_le_trans)
    ultimately show ?thesis using w get_embedding_weights [OF ge] by auto
  qed
qed

subsection \<open>No text is embedded twice\<close>

lemma get_embedding_requests:
  "provider_requests (snd (get_embedding prov s st)) =
     (if s \<in> dom (embedding_cache st) then provider_requests st
      else provider_requests st @ [s])"
  by (auto simp: get_embedding_def Let_def split: option.splits)

lemma get_embedding_once:
  "embedded_once st \<Longrightarrow> embedded_once (snd (get_embedding prov s st))"
  by (auto simp: embedded_once_def get_embedding_def Let_def split: option.splits)

lemma semantic_loop_once:
  "embedded_once st \<Longrightarrow> embedded_once (snd (semantic_loop prov qe vr res st))"
proof (induction vr arbitrary: res st)
  case Nil
  then show ?case by simp
next
  case (Cons c vr)
  obtain url v where c: "c = (url, v)" by (cases c)
  obtain ve st1 where ge: "get_embedding prov (get_or (description v) []) st = (ve, st1)"
    by (cases "get_embedding prov (get_or (description v) []) st")
  have st1: "embedded_once st1"
    using get_embedding_once [OF Cons.prems, of prov "get_or (description v) []"] ge by simp
  show ?case
    using Cons.IH [OF Cons.prems] Cons.IH [OF st1] c ge st1
    by (simp add: Let_def split: sum.splits)
qed

lemma semantic_search_once:
  "embedded_once st \<Longrightarrow> embedded_once (snd (semantic_search prov nan_order q vr st))"
proof -
  assume a: "embedded_once st"
  obtain qe st1 where ge: "get_embedding prov (get_or (description q) []) st = (qe, st1)"
    by (cases "get_embedding prov (get_or (description q) []) st")
  have st1: "embedded_once st1"
    using get_embedding_once [OF a, of prov "get_or (description q) []"] ge by simp
  obtain r st2 where sl: "semantic_loop prov qe vr [] st1 = (r, st2)"
    by (cases "semantic_loop prov qe vr [] st1")
  have "embedded_once st2" using semantic_loop_once [OF st1, of prov qe vr "[]"] sl by simp
  then show ?thesis using a ge sl
    by (simp add: semantic_search_def Let_def split: sum.splits)
qed

lemma hybrid_search_state:
  "snd (hybrid_search lower prov order nan_order q vr kmin smin n st) = snd (semantic_search prov nan_order q vr st)"
  by (simp add: hybrid_search_def sorted_results_def Let_def split: prod.splits sum.splits)

subsection \<open>\<open>semantic_search\<close>: what it returns, and that it returns\<close>

lemma get_embedding_dimension:
  "dimension_ok d prov st \<Longrightarrow> get_embedding prov s st = (v, st') \<Longrightarrow>
   length v = d \<and> dimension_ok d prov st'"
  by (auto simp: dimension_ok_def get_embedding_def Let_def split: option.splits if_splits)

lemma cosine_similarity_total:
  "length a = length b \<Longrightarrow> \<exists>sim. cosine_similarity a b = Inr sim"
  by (simp add: cosine_similarity_eq)

lemma semantic_loop_total:
  "dimension_ok d prov st \<Longrightarrow> length qe = d \<Longrightarrow>
   \<exists>out st'. semantic_loop prov qe vr res st = (Inr out, st')"
proof (induction vr arbitrary: res st)
  case Nil
  then show ?case by simp
next
  case (Cons c vr)
  obtain url v where c: "c = (url, v)" by (cases c)
  obtain ve st1 where ge: "get_embedding prov (get_or (description v) []) st = (ve, st1)"
    by (cases "get_embedding prov (get_or (description v) []) st")
  from get_embedding_dimension [OF Cons.prems(1) ge]
  have ve: "length ve = d" and st1: "dimension_ok d prov st1" by simp_all
  from cosine_similarity_total [of qe ve] ve Cons.prems(2)
  obtain sim where sim: "cosine_similarity qe ve = Inr sim" by auto
  show ?case
    using Cons.IH [OF Cons.prems] Cons.IH [OF st1 Cons.prems(2)] c ge sim
    by (simp add: Let_def)
qed

lemma semantic_search_total:
  "dimension_ok d prov st \<Longrightarrow> \<exists>out st'. semantic_search prov nan_order q vr st = (Inr out, st')"
proof -
  assume a: "dimension_ok d prov st"
  obtain qe st1 where ge: "get_embedding prov (get_or (description q) []) st = (qe, st1)"
    by (cases "get_embedding prov (get_or (description q) []) st")
  from get_embedding_dimension [OF a ge]
  have "length qe = d" and "dimension_ok d prov st1" by simp_all
  from semantic_loop_total [OF this(2) this(1), of vr "[]"]
  obtain r st2 where "semantic_loop prov qe vr [] st1 = (Inr r, st2)" by blast
  then show ?thesis using ge by (simp add: semantic_search_def Let_def)
qed

lemma semantic_search_empty_query:
  "get_or (description q) [] = [] \<Longrightarrow> semantic_search prov nan_order q vr st = (Inr [], st)"
  by (simp add: semantic_search_def)

lemma semantic_search_Inr:
  assumes "get_or (description q) [] \<noteq> []"
    and "semantic_search prov nan_order q vr st = (Inr out, st')"
  shows "\<exists>qe rs. embedding_cache st' (get_or (description q) []) = Some qe \<and>
           out = sorted_similarities nan_order rs \<and>
           list_all2 (scored_by st' qe) rs (filter has_description vr)"
    and "keyword_weight st' = keyword_weight st" and "semantic_weight st' = semantic_weight st"
proof -
  obtain qe st1 where ge: "get_embedding prov (get_or (description q) []) st = (qe, st1)"
    by (cases "get_embedding prov (get_or (description q) []) st")
  obtain r st2 where sl: "semantic_loop prov qe vr [] st1 = (r, st2)"
    by (cases "semantic_loop prov qe vr [] st1")
  from assms ge sl obtain rs where r: "r = Inr rs" and out: "out = sorted_similarities nan_order rs"
    and st2: "st2 = st'"
    by (cases r) (auto simp: semantic_search_def Let_def)
  from semantic_loop_Inr [of prov qe vr "[]" st1 rs st'] sl r st2
  have all: "list_all2 (scored_by st' qe) rs (filter has_description vr)"
    and mono: "embedding_cache st1 \<subseteq>\<^sub>m embedding_cache st'"
    and w: "keyword_weight st' = keyword_weight st1" "semantic_weight st' = semantic_weight st1"
    by auto
  have "embedding_cache st' (get_or (description q) []) = Some qe"
    using get_embedding_stores [OF ge] mono by (auto simp: map_le_def dom_def)
  with out all
  show "\<exists>qe rs. embedding_cache st' (get_or (description q) []) = Some qe \<and>
           out = sorted_similarities nan_order rs \<and>
           list_all2 (scored_by st' qe) rs (filter has_description vr)" by blast
  show "keyword_weight st' = keyword_weight st" "semantic_weight st' = semantic_weight st"
    using w get_embedding_weights [OF ge] by simp_all
qed

subsection \<open>Dicts\<close>

lemma update_fresh: "k \<notin> fst ` set al \<Longrightarrow> AList.update k v al = al @ [(k, v)]"
  by (induction al) auto

lemma fold_update_keys:
  "fst ` set (fold (\<lambda>(k, v) d. AList.update k v d) kvs acc) = fst ` set acc \<union> fst ` set kvs"
  by (induction kvs arbitrary: acc) (auto simp: AList.dom_update image_iff split: prod.splits)

lemma fold_update_distinct:
  "distinct (map fst acc) \<Longrightarrow>
   distinct (map fst (fold (\<lambda>(k, v) d. AList.update k v d) kvs acc))"
  by (induction kvs arbitrary: acc) (auto simp: AList.distinct_update split: prod.splits)

lemma set_keys_dict_of: "set (keys (dict_of kvs)) = fst ` set kvs"
  using fold_update_keys [of kvs "[]"] by (simp add: keys_def dict_of_def)

lemma distinct_keys_dict_of: "distinct (keys (dict_of kvs))"
  using fold_update_distinct [of "[]" kvs] by (simp add: keys_def dict_of_def)

lemma fold_update_fresh:
  "distinct (map fst kvs) \<Longrightarrow> fst ` set kvs \<inter> fst ` set acc = {} \<Longrightarrow>
   fold (\<lambda>(k, v) d. AList.update k v d) kvs acc = acc @ kvs"
proof (induction kvs arbitrary: acc)
  case Nil
  then show ?case by simp
next
  case (Cons kv kvs)
  obtain k v where kv: "kv = (k, v)" by (cases kv)
  have fresh: "k \<notin> fst ` set acc" using Cons.prems kv by auto
  have "fst ` set kvs \<inter> fst ` set (acc @ [(k, v)]) = {}"
    using Cons.prems kv by auto
  with Cons kv show ?case by (simp add: update_fresh [OF fresh])
qed

lemma dict_of_distinct: "distinct (map fst kvs) \<Longrightarrow> dict_of kvs = kvs"
  using fold_update_fresh [of kvs "[]"] by (simp add: dict_of_def)

lemma update_set: "set (AList.update k v al) \<subseteq> insert (k, v) (set al)"
  by (induction al) auto

lemma fold_update_set:
  "set (fold (\<lambda>(k, v) d. AList.update k v d) kvs acc) \<subseteq> set acc \<union> set kvs"
proof (induction kvs arbitrary: acc)
  case Nil
  then show ?case by simp
next
  case (Cons kv kvs)
  obtain k v where kv: "kv = (k, v)" by (cases kv)
  have "set (fold (\<lambda>(k, v) d. AList.update k v d) kvs (AList.update k v acc))
          \<subseteq> set (AList.update k v acc) \<union> set kvs" by (rule Cons.IH)
  then show ?case using update_set [of k v acc] kv by auto
qed

lemma set_dict_of: "set (dict_of kvs) \<subseteq> set kvs"
  using fold_update_set [of kvs "[]"] by (simp add: dict_of_def)

lemma combine_loop_eq:
  "distinct urls \<Longrightarrow> set urls \<inter> fst ` set acc = {} \<Longrightarrow>
   combine_loop st ks kd ss urls acc =
     acc @ map (\<lambda>url. (url, combined_entry st ks kd ss url)) urls"
proof (induction urls arbitrary: acc)
  case Nil
  then show ?case by simp
next
  case (Cons u us)
  have fresh: "u \<notin> fst ` set acc" using Cons.prems by auto
  have "set us \<inter> fst ` set (acc @ [(u, combined_entry st ks kd ss u)]) = {}"
    using Cons.prems by auto
  with Cons show ?case by (simp add: update_fresh [OF fresh])
qed

subsection \<open>The two channel mappings of \<open>hybrid_search\<close>\<close>

lemma keyword_search_mset:
  "mset (keyword_search lower q vr m) =
     mset (map (\<lambda>(u, v). (u, normalized_score lower q v, details_of lower q v))
            (filter (\<lambda>(u, v). normalized_score lower q v \<ge> m) vr))"
  by (simp add: keyword_search_def keyword_loop_eq mset_sorted_reverse)

lemma keyword_search_set:
  "set (keyword_search lower q vr m) =
     {(u, normalized_score lower q v, details_of lower q v) | u v.
        (u, v) \<in> set vr \<and> normalized_score lower q v \<ge> m}"
  by (auto simp: keyword_search_def keyword_loop_eq set_sorted_reverse)

lemma mset_map_sorted_reverse: "mset (map g (sorted_reverse k xs)) = mset (map g xs)"
  by (simp add: sorted_reverse_def)

lemma keyword_search_urls:
  "mset (map fst (keyword_search lower q vr m)) =
     mset (map fst (filter (\<lambda>(u, v). normalized_score lower q v \<ge> m) vr))"
proof -
  let ?f = "\<lambda>(u, v). (u, normalized_score lower q v, details_of lower q v)"
  let ?xs = "filter (\<lambda>(u, v). normalized_score lower q v \<ge> m) vr"
  have e: "map fst (map ?f ?xs) = map fst ?xs" by (simp add: case_prod_beta comp_def)
  have "mset (map fst (keyword_search lower q vr m)) = mset (map fst (map ?f ?xs))"
    unfolding keyword_search_def keyword_loop_eq by (simp only: mset_map_sorted_reverse append_Nil)
  then show ?thesis by (simp only: e)
qed

lemma keyword_search_distinct:
  "distinct (map fst vr) \<Longrightarrow> distinct (map fst (keyword_search lower q vr m))"
proof -
  assume "distinct (map fst vr)"
  then have "distinct (map fst (filter (\<lambda>(u, v). normalized_score lower q v \<ge> m) vr))"
    by (rule distinct_map_filter)
  then show ?thesis
    using keyword_search_urls [of lower q vr m] by (metis mset_eq_imp_distinct_iff)
qed

lemma keyword_scores_keys:
  "set (keys (keyword_scores (keyword_search lower q vr m))) =
     {u. \<exists>v. (u, v) \<in> set vr \<and> normalized_score lower q v \<ge> m}"
  by (force simp: keyword_scores_def set_keys_dict_of keyword_search_set image_iff)

lemma keyword_scores_lookup:
  assumes "distinct (map fst vr)" and "(u, v) \<in> set vr"
  shows "map_of (keyword_scores (keyword_search lower q vr m)) u =
           (if normalized_score lower q v \<ge> m then Some (normalized_score lower q v) else None)"
proof -
  let ?kr = "keyword_search lower q vr m"
  let ?kvs = "map (\<lambda>(url, score, _). (url, score)) ?kr"
  have fst_eq: "map fst ?kvs = map fst ?kr" by (simp add: case_prod_beta)
  have d: "distinct (map fst ?kvs)"
    unfolding fst_eq using assms(1) by (rule keyword_search_distinct)
  have ks: "keyword_scores ?kr = ?kvs"
    unfolding keyword_scores_def using d by (rule dict_of_distinct)
  have unique: "v' = v" if "(u, v') \<in> set vr" for v'
    using assms that by (meson eq_key_imp_eq_value)
  show ?thesis
  proof (cases "normalized_score lower q v \<ge> m")
    case True
    then have "(u, normalized_score lower q v, details_of lower q v) \<in> set ?kr"
      using assms(2) by (auto simp: keyword_search_set)
    then have "(u, normalized_score lower q v) \<in> set ?kvs" by force
    then show ?thesis using True d by (simp add: ks)
  next
    case False
    have "u \<notin> set (map fst ?kr)"
    proof
      assume "u \<in> set (map fst ?kr)"
      then obtain s dd where "(u, s, dd) \<in> set ?kr" by auto
      then obtain v' where "(u, v') \<in> set vr" "normalized_score lower q v' \<ge> m"
        by (auto simp: keyword_search_set)
      with unique False show False by auto
    qed
    then have "u \<notin> set (map fst ?kvs)" using fst_eq by metis
    then have "u \<notin> fst ` set ?kvs" using set_map [of fst ?kvs] by metis
    then show ?thesis using False by (simp add: ks map_of_eq_None_iff)
  qed
qed

lemma semantic_scores_keys:
  "set (keys (semantic_scores sr smin)) = {u. \<exists>s. (u, Some s) \<in> set sr \<and> s \<ge> smin}"
proof -
  have "fst ` (\<lambda>(url, score). (url, float_value score)) `
          {x \<in> set sr. case x of (url, score) \<Rightarrow> float_ge score smin} =
        {u. \<exists>s. (u, Some s) \<in> set sr \<and> s \<ge> smin}"
    by (force simp: float_ge_def image_iff split: option.splits)
  then show ?thesis by (simp add: semantic_scores_def set_keys_dict_of)
qed

lemma semantic_scores_lookup:
  assumes "distinct (map fst sr)" and "(u, f) \<in> set sr"
  shows "map_of (semantic_scores sr smin) u =
           (case f of None \<Rightarrow> None | Some s \<Rightarrow> if s \<ge> smin then Some s else None)"
proof -
  let ?xs = "filter (\<lambda>(url, score). float_ge score smin) sr"
  let ?kvs = "map (\<lambda>(url, score). (url, float_value score)) ?xs"
  have fst_eq: "map fst ?kvs = map fst ?xs" by (simp add: case_prod_beta comp_def)
  have d: "distinct (map fst ?kvs)"
    unfolding fst_eq using assms(1) by (rule distinct_map_filter)
  have ss: "semantic_scores sr smin = ?kvs"
    unfolding semantic_scores_def using d by (rule dict_of_distinct)
  have unique: "f' = f" if "(u, f') \<in> set sr" for f'
    using assms that by (meson eq_key_imp_eq_value)
  show ?thesis
  proof (cases "float_ge f smin")
    case True
    then obtain s where f: "f = Some s" and s: "s \<ge> smin"
      by (auto simp: float_ge_def split: option.splits)
    have "(u, f) \<in> set ?xs" using assms(2) True by simp
    then have "(u, float_value f) \<in> set ?kvs" by force
    then have "map_of ?kvs u = Some (float_value f)" using d by simp
    then show ?thesis using f s by (simp add: ss float_value_def)
  next
    case False
    have "u \<notin> set (map fst ?xs)"
    proof
      assume "u \<in> set (map fst ?xs)"
      then obtain f' where "(u, f') \<in> set sr" "float_ge f' smin" by auto
      with unique False show False by auto
    qed
    then have "u \<notin> set (map fst ?kvs)" using fst_eq by metis
    then have "u \<notin> fst ` set ?kvs" using set_map [of fst ?kvs] by metis
    then have "map_of ?kvs u = None" by (simp add: map_of_eq_None_iff)
    then show ?thesis using False by (simp add: ss float_ge_def split: option.splits)
  qed
qed

lemma semantic_scores_entries:
  "p \<in> set (semantic_scores sr smin) \<Longrightarrow> snd p \<ge> smin \<and> (fst p, Some (snd p)) \<in> set sr"
proof -
  assume "p \<in> set (semantic_scores sr smin)"
  then have "p \<in> set (map (\<lambda>(url, score). (url, float_value score))
       (filter (\<lambda>(url, score). float_ge score smin) sr))"
    using set_dict_of [of "map (\<lambda>(url, score). (url, float_value score))
       (filter (\<lambda>(url, score). float_ge score smin) sr)"]
    by (auto simp: semantic_scores_def)
  then show ?thesis
    by (auto simp: float_ge_def float_value_def split: option.splits)
qed

lemma scored_by_urls:
  "list_all2 (scored_by st qe) rs cs \<Longrightarrow> map fst rs = map fst cs"
  by (induction rs cs rule: list_all2_induct) (auto simp: scored_by_def)

lemma semantic_search_distinct:
  assumes "\<forall>xs. mset (nan_order xs) = mset xs"
    and "distinct (map fst vr)" and "semantic_search prov nan_order q vr st = (Inr sr, st')"
  shows "distinct (map fst sr)"
proof (cases "get_or (description q) [] = []")
  case True
  with assms(3) show ?thesis by (simp add: semantic_search_empty_query)
next
  case False
  from semantic_search_Inr(1) [OF False assms(3)] obtain qe rs where
    sr: "sr = sorted_similarities nan_order rs" and
    all: "list_all2 (scored_by st' qe) rs (filter has_description vr)" by blast
  have "distinct (map fst (filter has_description vr))"
    using assms(2) by (rule distinct_map_filter)
  then have "distinct (map fst rs)" using scored_by_urls [OF all] by simp
  moreover have "mset (map fst sr) = mset (map fst rs)"
    unfolding sr using mset_sorted_similarities [OF assms(1), of rs] by (metis mset_map)
  ultimately show ?thesis by (metis mset_eq_imp_distinct_iff)
qed

subsection \<open>\<open>hybrid_search\<close>: the list before and after the slice\<close>

lemma all_urls_props:
  assumes "\<forall>xs. mset (order xs) = mset xs"
  shows "distinct (all_urls order ks ss)"
    and "set (all_urls order ks ss) = set (keys ks) \<union> set (keys ss)"
proof -
  let ?xs = "remdups (keys ks @ keys ss)"
  have m: "mset (order ?xs) = mset ?xs" using assms by blast
  have "distinct ?xs" by simp
  then show "distinct (all_urls order ks ss)"
    unfolding all_urls_def using m by (metis mset_eq_imp_distinct_iff)
  have "set (order ?xs) = set ?xs" using m by (rule mset_eq_setD)
  then show "set (all_urls order ks ss) = set (keys ks) \<union> set (keys ss)"
    by (simp add: all_urls_def)
qed

lemma combined_entry_url: "fst (combined_entry st ks kd ss u) = u"
  by (simp add: combined_entry_def Let_def)

lemma combined_entry_score:
  "fst (snd (combined_entry st ks kd ss u)) =
     keyword_weight st * dict_get ks u 0 + semantic_weight st * dict_get ss u 0"
  by (simp add: combined_entry_def Let_def)

lemma semantic_search_weights:
  assumes "semantic_search prov nan_order q vr st = (Inr sr, st')"
  shows "keyword_weight st' = keyword_weight st \<and> semantic_weight st' = semantic_weight st"
proof (cases "get_or (description q) [] = []")
  case True
  with assms show ?thesis by (simp add: semantic_search_empty_query)
next
  case False
  from semantic_search_Inr(2,3) [OF False assms] show ?thesis by simp
qed

lemma sorted_results_Inr:
  assumes "\<forall>xs. mset (order xs) = mset xs"
    and "sorted_results lower prov order nan_order q vr kmin smin st = (Inr full, st')"
  shows "\<exists>sr. semantic_search prov nan_order q vr st = (Inr sr, st') \<and>
           full = sorted_reverse (\<lambda>x. fst (snd x))
             (map (combined_entry st' (keyword_scores (keyword_search lower q vr kmin))
                     (keyword_details (keyword_search lower q vr kmin)) (semantic_scores sr smin))
                (all_urls order (keyword_scores (keyword_search lower q vr kmin))
                   (semantic_scores sr smin)))"
proof -
  obtain r st1 where ss: "semantic_search prov nan_order q vr st = (r, st1)"
    by (cases "semantic_search prov nan_order q vr st")
  from assms(2) ss obtain sr where r: "r = Inr sr" and st1: "st1 = st'"
    by (cases r) (auto simp: sorted_results_def Let_def)
  let ?ks = "keyword_scores (keyword_search lower q vr kmin)"
  let ?kd = "keyword_details (keyword_search lower q vr kmin)"
  let ?ss = "semantic_scores sr smin"
  have "combine_loop st' ?ks ?kd ?ss (all_urls order ?ks ?ss) [] =
          [] @ map (\<lambda>url. (url, combined_entry st' ?ks ?kd ?ss url)) (all_urls order ?ks ?ss)"
    by (rule combine_loop_eq) (simp_all add: all_urls_props(1) [OF assms(1)])
  then have "dict_values (combine_loop st' ?ks ?kd ?ss (all_urls order ?ks ?ss) []) =
          map (combined_entry st' ?ks ?kd ?ss) (all_urls order ?ks ?ss)"
    by (simp add: dict_values_def comp_def)
  with assms(2) ss r st1 show ?thesis
    by (simp add: sorted_results_def Let_def)
qed

lemma sorted_results_total:
  "dimension_ok d prov st \<Longrightarrow>
   \<exists>full st'. sorted_results lower prov order nan_order q vr kmin smin st = (Inr full, st')"
  using semantic_search_total [where d = d and prov = prov and st = st and q = q and vr = vr
      and nan_order = nan_order]
  by (auto simp: sorted_results_def Let_def)

lemma hybrid_search_Inr:
  "hybrid_search lower prov order nan_order q vr kmin smin n st = (Inr res, st') \<Longrightarrow>
   \<exists>full. sorted_results lower prov order nan_order q vr kmin smin st = (Inr full, st') \<and>
          res = slice_to full n"
  by (auto simp: hybrid_search_def split: prod.splits sum.splits)

lemma slice_to_prefix: "prefix (slice_to xs n) xs"
  by (simp add: slice_to_def take_is_prefix)

lemma slice_to_length: "0 \<le> n \<Longrightarrow> int (length (slice_to xs n)) \<le> n"
  by (simp add: slice_to_def)

lemma slice_to_negative: "n < 0 \<Longrightarrow> length (slice_to xs n) = length xs - nat (- n)"
  by (simp add: slice_to_def)

lemma sorted_wrt_slice_to: "sorted_wrt R xs \<Longrightarrow> sorted_wrt R (slice_to xs n)"
  by (simp add: slice_to_def)

lemma keyword_search_contains:
  assumes "distinct (map fst vr)" and "(u, v) \<in> set vr"
  shows "(u \<in> set (map fst (keyword_search lower q vr m))) = (normalized_score lower q v \<ge> m)"
proof
  assume "u \<in> set (map fst (keyword_search lower q vr m))"
  then obtain s d where "(u, s, d) \<in> set (keyword_search lower q vr m)" by auto
  then obtain v' where v': "(u, v') \<in> set vr" "normalized_score lower q v' \<ge> m"
    by (auto simp: keyword_search_set)
  have "v' = v" using assms v'(1) by (meson eq_key_imp_eq_value)
  with v'(2) show "normalized_score lower q v \<ge> m" by simp
next
  assume "normalized_score lower q v \<ge> m"
  then have "(u, normalized_score lower q v, details_of lower q v) \<in> set (keyword_search lower q vr m)"
    using assms(2) by (auto simp: keyword_search_set)
  then show "u \<in> set (map fst (keyword_search lower q vr m))" by force
qed

lemma sorted_results_urls:
  assumes "\<forall>xs. mset (order xs) = mset xs"
    and "full = sorted_reverse k (map (combined_entry st ks kd ss) (all_urls order ks ss))"
  shows "distinct (map fst full)" and "set (map fst full) = set (keys ks) \<union> set (keys ss)"
    and "length full = length (all_urls order ks ss)"
proof -
  have urls: "map fst (map (combined_entry st ks kd ss) (all_urls order ks ss)) =
                all_urls order ks ss"
    by (simp add: comp_def combined_entry_url)
  have m: "mset (map fst full) = mset (all_urls order ks ss)"
    unfolding assms(2) mset_map_sorted_reverse by (simp only: urls)
  show "distinct (map fst full)"
    using m all_urls_props(1) [OF assms(1), of ks ss] by (metis mset_eq_imp_distinct_iff)
  show "set (map fst full) = set (keys ks) \<union> set (keys ss)"
    using mset_eq_setD [OF m] all_urls_props(2) [OF assms(1), of ks ss] by simp
  show "length full = length (all_urls order ks ss)"
    using m by (metis length_map size_mset)
qed

lemma hybrid_search_total:
  "dimension_ok d prov st \<Longrightarrow>
   \<exists>res st'. hybrid_search lower prov order nan_order q vr kmin smin n st = (Inr res, st')"
  using sorted_results_total [where d = d and prov = prov and st = st and order = order
      and q = q and vr = vr and kmin = kmin and smin = smin and lower = lower
      and nan_order = nan_order]
  by (auto simp: hybrid_search_def)

subsection \<open>The example, evaluated\<close>

lemma example_cosine:
  "cosine_similarity [1, 0] [1, 0] = Inr (Some 1)"
  "cosine_similarity [1, 0] [0, 1] = Inr (Some 0)"
  by (simp_all add: cosine_similarity_def dot_def norm_vec_def Let_def)

lemma blank_semantic:
  "fst (semantic_search example_provider nan_order example_query blank_corpus (init kw sw)) =
     Inr [(''image2.jpg'', Some 1), (''image1.jpg'', Some 0)]"
  by (simp add: semantic_search_def blank_corpus_def example_query_def image1_def image2_def
        image3_def get_or_def get_embedding_def init_def Let_def example_provider_def
        example_cosine sorted_similarities_def has_nan_def
        float_value_def sorted_reverse_def)

lemma blank_keyword_scores:
  "keyword_scores (keyword_search ascii_lower example_query blank_corpus (9 / 10)) = [(''image1.jpg'', 1)]"
  by code_simp

lemma example_dimension_ok: "dimension_ok 2 example_provider (init kw sw)"
  by (simp add: dimension_ok_def example_provider_def init_def)

lemma rev_rearranges: "\<forall>xs. mset (rev xs) = mset xs"
  by simp

lemma blank_semantic_scores:
  "semantic_scores [(''image2.jpg'', Some 1), (''image1.jpg'', Some 0)] (1 / 2) =
     [(''image2.jpg'', 1)]"
  by (simp add: semantic_scores_def dict_of_def float_ge_def float_value_def)

lemma blank_all_urls:
  "all_urls rev [(''image1.jpg'', 1)] [(''image2.jpg'', 1)] = [''image2.jpg'', ''image1.jpg'']"
  by (simp add: all_urls_def keys_def)

lemma example_scores:
  "normalized_score ascii_lower example_query image1 = 1" "normalized_score ascii_lower example_query image3 = 3 / 5"
  by code_simp+

lemma blank_sorted_results:
  assumes "sorted_results ascii_lower example_provider rev nan_order example_query blank_corpus (9 / 10) (1 / 2)
             init_default = (Inr full, st')"
  shows "length full = 2"
proof -
  from sorted_results_Inr [OF rev_rearranges assms] obtain sem where
    sem: "semantic_search example_provider nan_order example_query blank_corpus init_default
            = (Inr sem, st')" and
    full: "full = sorted_reverse (\<lambda>x. fst (snd x))
             (map (combined_entry st'
                     (keyword_scores (keyword_search ascii_lower example_query blank_corpus (9 / 10)))
                     (keyword_details (keyword_search ascii_lower example_query blank_corpus (9 / 10)))
                     (semantic_scores sem (1 / 2)))
                (all_urls rev (keyword_scores (keyword_search ascii_lower example_query blank_corpus (9 / 10)))
                   (semantic_scores sem (1 / 2))))"
    by blast
  have "sem = [(''image2.jpg'', Some 1), (''image1.jpg'', Some 0)]"
    using sem blank_semantic [of nan_order "7 / 10" "3 / 10"] by (simp add: init_default_def)
  then show ?thesis
    using sorted_results_urls(3) [OF rev_rearranges full]
    by (simp add: blank_keyword_scores blank_semantic_scores blank_all_urls)
qed

subsection \<open>\<open>hybrid_search\<close>: the union of the channels and the slice\<close>

lemma sorted_results_union:
  assumes "\<forall>xs. mset (order xs) = mset xs" and "\<forall>xs. mset (nan_order xs) = mset xs"
    and "sorted_results lower prov order nan_order q vr kmin smin st = (Inr full, st')"
  shows "(\<exists>sr. semantic_search prov nan_order q vr st = (Inr sr, st') \<and>
     distinct (map fst full) \<and>
     set (map fst full) =
       set (keys (keyword_scores (keyword_search lower q vr kmin))) \<union>
       set (keys (semantic_scores sr smin)) \<and>
     set (keys (keyword_scores (keyword_search lower q vr kmin))) =
       {u. \<exists>v. (u, v) \<in> set vr \<and> normalized_score lower q v \<ge> kmin} \<and>
     set (keys (semantic_scores sr smin)) = {u. \<exists>s. (u, Some s) \<in> set sr \<and> s \<ge> smin} \<and>
     (\<forall>x \<in> set full. fst (snd x) =
        keyword_weight st * dict_get (keyword_scores (keyword_search lower q vr kmin)) (fst x) 0 +
        semantic_weight st * dict_get (semantic_scores sr smin) (fst x) 0) \<and>
     (distinct (map fst vr) \<longrightarrow>
        (\<forall>(u, v) \<in> set vr. dict_get (keyword_scores (keyword_search lower q vr kmin)) u 0 =
           (if normalized_score lower q v \<ge> kmin then normalized_score lower q v else 0)) \<and>
        (\<forall>(u, f) \<in> set sr. dict_get (semantic_scores sr smin) u 0 =
           (case f of None \<Rightarrow> 0 | Some s \<Rightarrow> if s \<ge> smin then s else 0))))"
proof -
  let ?ks = "keyword_scores (keyword_search lower q vr kmin)"
  let ?kd = "keyword_details (keyword_search lower q vr kmin)"
  from sorted_results_Inr [OF assms(1,3)] obtain sr where
    sem: "semantic_search prov nan_order q vr st = (Inr sr, st')" and
    full: "full = sorted_reverse (\<lambda>x. fst (snd x))
             (map (combined_entry st' ?ks ?kd (semantic_scores sr smin))
                (all_urls order ?ks (semantic_scores sr smin)))"
    by blast
  let ?ss = "semantic_scores sr smin"
  have d: "distinct (map fst full)"
    and s: "set (map fst full) = set (keys ?ks) \<union> set (keys ?ss)"
    using sorted_results_urls(1,2) [OF assms(1) full] by simp_all
  have w: "keyword_weight st' = keyword_weight st" "semantic_weight st' = semantic_weight st"
    using semantic_search_weights [OF sem] by simp_all
  have c: "\<forall>x \<in> set full. fst (snd x) =
        keyword_weight st * dict_get ?ks (fst x) 0 + semantic_weight st * dict_get ?ss (fst x) 0"
    unfolding full set_sorted_reverse
    by (auto simp: combined_entry_url combined_entry_score w)
  have k: "\<forall>(u, v) \<in> set vr. dict_get ?ks u 0 =
           (if normalized_score lower q v \<ge> kmin then normalized_score lower q v else 0)"
    if "distinct (map fst vr)"
    using keyword_scores_lookup [OF that, of _ _ lower q kmin] by (auto simp: dict_get_def)
  have e: "\<forall>(u, f) \<in> set sr. dict_get ?ss u 0 =
           (case f of None \<Rightarrow> 0 | Some s \<Rightarrow> if s \<ge> smin then s else 0)"
    if "distinct (map fst vr)"
    using semantic_scores_lookup [OF semantic_search_distinct [OF assms(2) that sem], of _ _ smin]
    by (auto simp: dict_get_def split: option.splits)
  show ?thesis
    using sem d s c k e keyword_scores_keys [of lower q vr kmin] semantic_scores_keys [of sr smin]
    by blast
qed

lemma hybrid_search_prefix:
  assumes "\<forall>xs. mset (order xs) = mset xs"
    and "hybrid_search lower prov order nan_order q vr kmin smin max_results st = (Inr res, st')"
  shows "\<exists>full sr. sorted_results lower prov order nan_order q vr kmin smin st = (Inr full, st') \<and>
     semantic_search prov nan_order q vr st = (Inr sr, st') \<and>
     sorted_wrt (\<lambda>x y. fst (snd x) \<ge> fst (snd y)) full \<and>
     distinct (map fst full) \<and>
     set (map fst full) =
       set (keys (keyword_scores (keyword_search lower q vr kmin))) \<union>
       set (keys (semantic_scores sr smin)) \<and>
     prefix res full \<and>
     sorted_wrt (\<lambda>x y. fst (snd x) \<ge> fst (snd y)) res \<and>
     (0 \<le> max_results \<longrightarrow> int (length res) \<le> max_results) \<and>
     (max_results < 0 \<longrightarrow> length res = length full - nat (- max_results))"
proof -
  from hybrid_search_Inr [OF assms(2)] obtain full where
    sr: "sorted_results lower prov order nan_order q vr kmin smin st = (Inr full, st')" and
    res: "res = slice_to full max_results" by blast
  let ?ks = "keyword_scores (keyword_search lower q vr kmin)"
  let ?kd = "keyword_details (keyword_search lower q vr kmin)"
  from sorted_results_Inr [OF assms(1) sr] obtain sem where
    sem: "semantic_search prov nan_order q vr st = (Inr sem, st')" and
    full: "full = sorted_reverse (\<lambda>x. fst (snd x))
             (map (combined_entry st' ?ks ?kd (semantic_scores sem smin))
                (all_urls order ?ks (semantic_scores sem smin)))"
    by blast
  let ?ss = "semantic_scores sem smin"
  have d: "distinct (map fst full)"
    and s: "set (map fst full) = set (keys ?ks) \<union> set (keys ?ss)"
    using sorted_results_urls(1,2) [OF assms(1) full] by simp_all
  have sorted: "sorted_wrt (\<lambda>x y. fst (snd x) \<ge> fst (snd y)) full"
    unfolding full by (rule sorted_reverse_sorted)
  have "prefix res full" unfolding res by (rule slice_to_prefix)
  moreover have "sorted_wrt (\<lambda>x y. fst (snd x) \<ge> fst (snd y)) res"
    unfolding res using sorted by (rule sorted_wrt_slice_to)
  moreover have "0 \<le> max_results \<longrightarrow> int (length res) \<le> max_results"
    unfolding res using slice_to_length [of max_results full] by blast
  moreover have "max_results < 0 \<longrightarrow> length res = length full - nat (- max_results)"
    unfolding res using slice_to_negative [of max_results full] by blast
  ultimately show ?thesis using sr sem sorted d s by blast
qed

subsection \<open>Vectors that are not unit vectors, evaluated\<close>

lemma scaled_cosine:
  "cosine_similarity [3, 4] [4, 3] = Inr (Some (24 / 25))"
  "cosine_similarity [3, 4] [6, 8] = Inr (Some 1)"
  "cosine_similarity [3, 4] [0, 0] = Inr None"
  "cosine_similarity [3, 4] [1] = Inl ValueError"
proof -
  have "sqrt 25 = 5" by (rule real_sqrt_unique) simp_all
  moreover have "sqrt 100 = 10" by (rule real_sqrt_unique) simp_all
  ultimately show "cosine_similarity [3, 4] [4, 3] = Inr (Some (24 / 25))"
    "cosine_similarity [3, 4] [6, 8] = Inr (Some 1)"
    "cosine_similarity [3, 4] [0, 0] = Inr None"
    "cosine_similarity [3, 4] [1] = Inl ValueError"
    by (simp_all add: cosine_similarity_def dot_def norm_vec_def Let_def)
qed

lemma scaled_similarity:
  "similarity [3, 4] [4, 3] = Some (24 / 25)"
  "similarity [3, 4] [6, 8] = Some 1"
  "similarity [3, 4] [0, 0] = None"
proof -
  have "sqrt 25 = 5" by (rule real_sqrt_unique) simp_all
  moreover have "sqrt 100 = 10" by (rule real_sqrt_unique) simp_all
  ultimately show "similarity [3, 4] [4, 3] = Some (24 / 25)"
    "similarity [3, 4] [6, 8] = Some 1"
    "similarity [3, 4] [0, 0] = None"
    by (simp_all add: similarity_def zero_vector_def cosine_def lessThan_Suc numeral_2_eq_2)
qed

lemma scaled_semantic:
  "fst (semantic_search scaled_provider nan_order example_query blank_corpus (init kw sw)) =
     Inr [(''image2.jpg'', Some 1), (''image1.jpg'', Some (24 / 25))]"
  by (simp add: semantic_search_def blank_corpus_def example_query_def image1_def image2_def
        image3_def get_or_def get_embedding_def init_def Let_def scaled_provider_def
        scaled_cosine sorted_similarities_def has_nan_def float_value_def sorted_reverse_def)

lemma scaled_semantic_nan:
  "fst (semantic_search scaled_provider rev example_query example_corpus (init kw sw)) =
     Inr [(''image3.jpg'', None), (''image2.jpg'', Some 1), (''image1.jpg'', Some (24 / 25))]"
  by (simp add: semantic_search_def example_corpus_def example_query_def image1_def image2_def
        image3_def get_or_def get_embedding_def init_def Let_def scaled_provider_def
        scaled_cosine sorted_similarities_def has_nan_def float_value_def sorted_reverse_def)

lemma scaled_dimension_ok: "dimension_ok 2 scaled_provider (init kw sw)"
  by (simp add: dimension_ok_def scaled_provider_def init_def)

section \<open>The claims\<close>

text \<open>
  In the theorems \<open>lower\<close> is the builtin \<open>str.lower\<close>, \<open>order\<close> the order in which
  Python iterates over a set and \<open>nan_order\<close> what Python's sort does with a list that
  holds a \<open>nan\<close>. A theorem that needs to know something of them says so: \<open>str_lower lower\<close>,
  and that \<open>order\<close> and \<open>nan_order\<close> rearrange their argument.
\<close>

text \<open>
  C6. For every query and every candidate, the \<open>normalized_score\<close> that
  \<open>keyword_search\<close> computes lies between \<open>0.0\<close> and \<open>1.0\<close> inclusive; the accumulated
  \<open>score\<close> never exceeds \<open>max_score\<close>.
\<close>

theorem normalized_score_in_unit_interval:
  "0 \<le> normalized_score lower q v \<and> normalized_score lower q v \<le> 1 \<and>
   score_of lower q v \<le> max_score_of lower q v"
  using normalized_score_bounds [of lower q v] score_le_max [of lower q v] by simp

text \<open>
  C1. \<open>keyword_search\<close> scores exactly the active fields, additively. The room type
  matches iff the lowered room type of the query is a substring of the lowered room type
  of the candidate, the capacity matches iff the candidate's \<open>max_capacity\<close> is at least
  the query's, the view type matches like the room type, and a feature of the query
  matches iff it is, lowered, a substring of some lowered feature of the candidate; it is
  then counted once, however many features of the candidate contain it. Every match adds
  \<open>1.0\<close> to \<open>score\<close>; every active scalar field adds \<open>1.0\<close> and the features add their
  number to \<open>max_score\<close>. The match flags recorded in \<open>match_details\<close> are these matches.

  Lowering makes the matches case-insensitive. On ASCII text, where \<open>str.lower\<close> is known,
  this is said without a lowering: the room type and the view type match iff the query's
  string occurs in the candidate's up to the case of the letters, a feature matches iff it
  occurs up to case in some feature of the candidate, and a field is inactive also when
  it is \<open>any\<close> (or, for the view type, \<open>standard\<close>) in capitals.
\<close>

theorem keyword_search_scores_active_fields:
  "score_of lower q v =
      (if room_type_active lower q \<and> room_type_matches lower q v then 1 else 0)
    + (if capacity_active q \<and> capacity_matches q v then 1 else 0)
    + (if view_type_active lower q \<and> view_type_matches lower q v then 1 else 0)
    + real (length (filter (\<lambda>f. matched_in (vision_features lower v) (lower f))
                      (get_or (features q) [])))
   \<and> max_score_of lower q v =
      (if room_type_active lower q then 1 else 0) + (if capacity_active q then 1 else 0)
    + (if view_type_active lower q then 1 else 0) + real (length (get_or (features q) []))
   \<and> map_option tm_match (md_room_type (details_of lower q v)) =
      (if room_type_active lower q then Some (room_type_matches lower q v) else None)
   \<and> map_option cm_match (md_max_capacity (details_of lower q v)) =
      (if capacity_active q then Some (capacity_matches q v) else None)
   \<and> map_option tm_match (md_view_type (details_of lower q v)) =
      (if view_type_active lower q then Some (view_type_matches lower q v) else None)
   \<and> map_option fm_matches (md_features (details_of lower q v)) =
      (if get_or (features q) [] \<noteq> []
       then Some (map lower (filter (\<lambda>f. matched_in (vision_features lower v) (lower f))
                    (get_or (features q) [])))
       else None)
   \<and> (str_lower lower \<and> ascii_json q \<and> ascii_json v \<longrightarrow>
        (room_type_active lower q \<longleftrightarrow>
           get_or (room_type q) [] \<noteq> [] \<and> \<not> ci_equal (get_or (room_type q) []) ''any'') \<and>
        (view_type_active lower q \<longleftrightarrow>
           get_or (view_type q) [] \<noteq> [] \<and> \<not> ci_equal (get_or (view_type q) []) ''any'' \<and>
           \<not> ci_equal (get_or (view_type q) []) ''standard'') \<and>
        (room_type_matches lower q v \<longleftrightarrow>
           ci_substring (get_or (room_type q) []) (get_or (room_type v) [])) \<and>
        (view_type_matches lower q v \<longleftrightarrow>
           ci_substring (get_or (view_type q) []) (get_or (view_type v) [])) \<and>
        (\<forall>f \<in> set (get_or (features q) []).
           matched_in (vision_features lower v) (lower f) \<longleftrightarrow>
           list_ex (ci_substring f) (get_or (features v) [])))"
proof -
  have "(room_type_active lower q \<longleftrightarrow>
           get_or (room_type q) [] \<noteq> [] \<and> \<not> ci_equal (get_or (room_type q) []) ''any'') \<and>
        (view_type_active lower q \<longleftrightarrow>
           get_or (view_type q) [] \<noteq> [] \<and> \<not> ci_equal (get_or (view_type q) []) ''any'' \<and>
           \<not> ci_equal (get_or (view_type q) []) ''standard'') \<and>
        (room_type_matches lower q v \<longleftrightarrow>
           ci_substring (get_or (room_type q) []) (get_or (room_type v) [])) \<and>
        (view_type_matches lower q v \<longleftrightarrow>
           ci_substring (get_or (view_type q) []) (get_or (view_type v) [])) \<and>
        (\<forall>f \<in> set (get_or (features q) []).
           matched_in (vision_features lower v) (lower f) \<longleftrightarrow>
           list_ex (ci_substring f) (get_or (features v) []))"
    if l: "str_lower lower" and q: "ascii_json q" and v: "ascii_json v"
  proof -
    have qa: "is_ascii (get_or (room_type q) [])" "is_ascii (get_or (view_type q) [])"
      and qf: "list_all is_ascii (get_or (features q) [])"
      using q by (simp_all add: ascii_json_def)
    have va: "is_ascii (get_or (room_type v) [])" "is_ascii (get_or (view_type v) [])"
      and vf: "list_all is_ascii (get_or (features v) [])"
      using v by (simp_all add: ascii_json_def)
    have "matched_in (vision_features lower v) (lower f) \<longleftrightarrow>
            list_ex (ci_substring f) (get_or (features v) [])"
      if "f \<in> set (get_or (features q) [])" for f
    proof -
      have "is_ascii f" using qf that by (simp add: list_all_iff)
      then show ?thesis
        unfolding vision_features_def using l vf by (intro matched_in_lower)
    qed
    then show ?thesis
      using lower_ci_equal [OF l qa(1)] lower_ci_equal [OF l qa(2)]
        sublist_lower [OF l qa(1) va(1)] sublist_lower [OF l qa(2) va(2)]
      by (simp add: room_type_active_def view_type_active_def room_type_matches_def
            view_type_matches_def)
  qed
  then show ?thesis
    by (simp add: score_of_eq max_score_of_eq details_of_eq query_features_def filter_map
          comp_def)
qed

theorem keyword_search_scores_active_fields_witness:
  "str_lower ascii_lower \<and> ascii_json mixed_query \<and> ascii_json mixed_image \<and>
   score_of ascii_lower mixed_query mixed_image = 4 \<and>
   max_score_of ascii_lower mixed_query mixed_image = 5 \<and>
   ci_substring ''Double'' ''Deluxe DOUBLE room'' \<and>
   ci_substring ''SEA VIEW'' ''Partial sea view'' \<and>
   list_ex (ci_substring ''Balcony'') [''Air Conditioning'', ''private BALCONY''] \<and>
   \<not> list_ex (ci_substring ''Pool'') [''Air Conditioning'', ''private BALCONY''] \<and>
   str_lower latin_lower \<and>
   score_of latin_lower accent_query accent_image = 1 \<and>
   max_score_of latin_lower accent_query accent_image = 1"
proof -
  note mixed = keyword_search_scores_active_fields [where lower = ascii_lower
      and q = mixed_query and v = mixed_image]
  note accent = keyword_search_scores_active_fields [where lower = latin_lower
      and q = accent_query and v = accent_image]
  have l: "str_lower ascii_lower" by (rule str_lower_ascii_lower)
  have j: "ascii_json mixed_query" "ascii_json mixed_image" by code_simp+
  have g: "get_or (room_type mixed_query) [] = ''Double''"
    "get_or (room_type mixed_image) [] = ''Deluxe DOUBLE room''"
    "get_or (view_type mixed_query) [] = ''SEA VIEW''"
    "get_or (view_type mixed_image) [] = ''Partial sea view''"
    "get_or (features mixed_query) [] = [''Balcony'', ''Pool'']"
    "get_or (features mixed_image) [] = [''Air Conditioning'', ''private BALCONY'']"
    by (simp_all add: mixed_query_def mixed_image_def get_or_def)
  have a: "room_type_active ascii_lower mixed_query"
    "room_type_matches ascii_lower mixed_query mixed_image"
    "capacity_active mixed_query" "capacity_matches mixed_query mixed_image"
    "view_type_active ascii_lower mixed_query"
    "view_type_matches ascii_lower mixed_query mixed_image"
    "matched_in (vision_features ascii_lower mixed_image) (ascii_lower ''Balcony'')"
    "\<not> matched_in (vision_features ascii_lower mixed_image) (ascii_lower ''Pool'')"
    by code_simp+
  have s: "score_of ascii_lower mixed_query mixed_image = 4"
    "max_score_of ascii_lower mixed_query mixed_image = 5"
    using mixed by (simp_all add: a g)
  have c: "ci_substring ''Double'' ''Deluxe DOUBLE room''"
    "ci_substring ''SEA VIEW'' ''Partial sea view''"
    "list_ex (ci_substring ''Balcony'') [''Air Conditioning'', ''private BALCONY'']"
    "\<not> list_ex (ci_substring ''Pool'') [''Air Conditioning'', ''private BALCONY'']"
    using mixed l j a unfolding g by simp_all
  have b: "room_type_active latin_lower accent_query"
    "room_type_matches latin_lower accent_query accent_image"
    "\<not> capacity_active accent_query" "\<not> view_type_active latin_lower accent_query"
    "get_or (features accent_query) [] = []"
    by code_simp+
  have t: "score_of latin_lower accent_query accent_image = 1"
    "max_score_of latin_lower accent_query accent_image = 1"
    using accent by (simp_all add: b)
  show ?thesis using l j s c t str_lower_latin_lower by simp
qed



text \<open>
  C7. Monotonicity of the feature channel: appending features to the feature list of a
  candidate, all its other fields unchanged, never decreases its \<open>normalized_score\<close>;
  in particular not when the new features make one more feature of the query match.
\<close>

theorem feature_channel_monotone:
  "normalized_score lower q v
     \<le> normalized_score lower q (v\<lparr>features := Some (get_or (features v) [] @ extra)\<rparr>)"
proof -
  let ?v' = "v\<lparr>features := Some (get_or (features v) [] @ extra)\<rparr>"
  have m: "max_score_of lower q ?v' = max_score_of lower q v" by (rule max_score_of_candidate)
  show ?thesis
    using score_of_extend [of lower q v extra] max_score_nonneg [of lower q v]
    by (simp add: normalized_score_def m divide_right_mono)
qed

theorem feature_channel_monotone_witness:
  "normalized_score ascii_lower example_query image_no_balcony = 4 / 5 \<and>
   normalized_score ascii_lower example_query
     (image_no_balcony\<lparr>features := Some (get_or (features image_no_balcony) [] @ [''Balcony''])\<rparr>) = 1 \<and>
   normalized_score ascii_lower example_query image_no_balcony
     \<le> normalized_score ascii_lower example_query
         (image_no_balcony\<lparr>features := Some (get_or (features image_no_balcony) [] @ [''Balcony''])\<rparr>)"
proof -
  have a: "normalized_score ascii_lower example_query image_no_balcony = 4 / 5" by code_simp
  have b: "normalized_score ascii_lower example_query
     (image_no_balcony\<lparr>features := Some (get_or (features image_no_balcony) [] @ [''Balcony''])\<rparr>) = 1"
    by code_simp
  show ?thesis
    using feature_channel_monotone [where lower = ascii_lower and q = example_query
        and v = image_no_balcony and extra = "[''Balcony'']"] a b
    by simp
qed

text \<open>
  C10. The feature list of the query is a sequence, not a set: \<open>query_features\<close> keeps
  every occurrence, each occurrence adds \<open>1.0\<close> to \<open>max_score\<close>, each occurrence that
  matches some feature of the candidate adds \<open>1.0\<close> to \<open>score\<close>, and the list of matches
  recorded in \<open>match_details\<close> holds each matching occurrence separately: a matching
  feature occurs there as often as in the query.
\<close>

theorem query_features_are_a_sequence:
  "query_features lower q = map lower (get_or (features q) [])
   \<and> max_score_of lower q v =
        max_score_of lower (q\<lparr>features := None\<rparr>) v + real (length (query_features lower q))
   \<and> score_of lower q v = score_of lower (q\<lparr>features := None\<rparr>) v
        + real (length (filter (matched_in (vision_features lower v)) (query_features lower q)))
   \<and> (query_features lower q \<noteq> [] \<longrightarrow>
        md_features (details_of lower q v) =
          Some \<lparr>fm_query = query_features lower q, fm_vision = vision_features lower v,
                fm_matches = filter (matched_in (vision_features lower v))
                  (query_features lower q)\<rparr>)
   \<and> count_list (filter (matched_in (vision_features lower v)) (query_features lower q)) g =
        (if matched_in (vision_features lower v) g then count_list (query_features lower q) g
         else 0)"
  by (simp add: query_features_def [of lower q] score_of_eq max_score_of_eq details_of_eq
        without_features count_list_filter)

theorem query_features_are_a_sequence_witness:
  "query_features ascii_lower twice_query = [''balcony'', ''pool'', ''balcony''] \<and>
   max_score_of ascii_lower twice_query image1 = 3 \<and>
   score_of ascii_lower twice_query image1 = 2 \<and>
   map_option fm_matches (md_features (details_of ascii_lower twice_query image1)) =
     Some [''balcony'', ''balcony''] \<and>
   count_list (filter (matched_in (vision_features ascii_lower image1))
       (query_features ascii_lower twice_query)) ''balcony'' = 2"
proof -
  have a: "query_features ascii_lower twice_query = [''balcony'', ''pool'', ''balcony'']"
    by code_simp
  have b: "filter (matched_in (vision_features ascii_lower image1))
             [''balcony'', ''pool'', ''balcony''] = [''balcony'', ''balcony'']" by code_simp
  have c: "max_score_of ascii_lower (twice_query\<lparr>features := None\<rparr>) image1 = 0"
          "score_of ascii_lower (twice_query\<lparr>features := None\<rparr>) image1 = 0" by code_simp+
  show ?thesis
    using query_features_are_a_sequence [where lower = ascii_lower and q = twice_query
        and v = image1 and g = "''balcony''"]
    unfolding a b c by simp
qed

text \<open>
  C9. The embedding cache is idempotent. A call of \<open>get_embedding\<close> with a text that is
  in the cache returns the cached vector and leaves the instance and the list of provider
  requests as they are; so a second call with the same text returns the vector of the
  first and makes no request, whatever the provider would answer now. A call makes at most
  one request, and only for a text that is not cached. A new instance has made no
  request, and \<open>get_embedding\<close>, \<open>semantic_search\<close> and \<open>hybrid_search\<close> keep the requests
  pairwise different: no text is embedded twice in the lifetime of an instance.
\<close>

theorem embedding_cache_idempotent:
  "(embedding_cache st s = Some v \<longrightarrow> get_embedding prov s st = (v, st))
   \<and> (get_embedding prov s st = (v, st') \<longrightarrow>
        get_embedding prov s st' = (v, st') \<and>
        provider_requests st' =
          (if s \<in> dom (embedding_cache st) then provider_requests st
           else provider_requests st @ [s]))
   \<and> embedded_once (init kw sw)
   \<and> (embedded_once st \<longrightarrow>
        embedded_once (snd (get_embedding prov s st)) \<and>
        embedded_once (snd (semantic_search prov nan_order q vr st)) \<and>
        embedded_once (snd (hybrid_search lower prov order nan_order q vr kmin smin n st)))"
proof -
  have "get_embedding prov s st' = (v, st')" if "get_embedding prov s st = (v, st')"
    using get_embedding_stores [OF that] by (rule get_embedding_cached)
  moreover have "provider_requests st' =
          (if s \<in> dom (embedding_cache st) then provider_requests st
           else provider_requests st @ [s])" if "get_embedding prov s st = (v, st')"
    using get_embedding_requests [of prov s st] that by simp
  moreover have "embedded_once (init kw sw)" by (simp add: embedded_once_def init_def)
  ultimately show ?thesis
    using get_embedding_cached [of st s v prov] get_embedding_once [of st prov s]
      semantic_search_once [of st prov nan_order q vr]
    by (simp add: hybrid_search_state)
qed

theorem embedding_cache_idempotent_witness:
  "get_embedding example_provider ''a'' (init 1 1) =
     ([1, 0], (init 1 1)\<lparr>embedding_cache := [''a'' \<mapsto> [1, 0]], provider_requests := [''a'']\<rparr>)
   \<and> get_embedding example_provider ''a''
       ((init 1 1)\<lparr>embedding_cache := [''a'' \<mapsto> [1, 0]], provider_requests := [''a'']\<rparr>) =
     ([1, 0], (init 1 1)\<lparr>embedding_cache := [''a'' \<mapsto> [1, 0]], provider_requests := [''a'']\<rparr>)
   \<and> example_provider 1 ''a'' \<noteq> [1, 0]
   \<and> embedded_once (init 1 1)
   \<and> embedded_once (snd (hybrid_search ascii_lower example_provider rev rev example_query
        example_corpus (3 / 10) (1 / 2) 5 (init 1 1)))"
proof -
  let ?st' = "(init 1 1)\<lparr>embedding_cache := [''a'' \<mapsto> [1, 0]], provider_requests := [''a'']\<rparr>"
  have a: "get_embedding example_provider ''a'' (init 1 1) = ([1, 0], ?st')"
    by (simp add: get_embedding_def init_def example_provider_def Let_def)
  have b: "example_provider 1 ''a'' \<noteq> [1, 0]" by (simp add: example_provider_def)
  show ?thesis
    using embedding_cache_idempotent [where st = "init 1 1" and s = "''a''" and v = "[1, 0]"
        and prov = example_provider and st' = ?st' and kw = 1 and sw = 1
        and q = example_query and vr = example_corpus and order = rev and nan_order = rev
        and lower = ascii_lower and kmin = "3 / 10" and smin = "1 / 2" and n = 5] a b
    by simp
qed

text \<open>
  C8. \<open>semantic_search\<close> returns the empty list, for every corpus, when the description
  of the query is empty or absent, and then leaves the instance as it is. For a non-empty
  description of the query its result holds, up to the final sorting, one entry for each
  candidate whose own description is non-empty, in the order of the corpus, and none for
  the others: a candidate with an empty description is skipped, not scored as zero. The
  score of an entry is the cosine similarity of the embedding of the query's description
  and of the embedding of the candidate's description, as the cache holds them after the
  call: the dot product of the two vectors over the product of their Euclidean norms,
  and \<open>nan\<close> when one of them is the zero vector. That is what the method
  \<open>cosine_similarity\<close> computes for vectors of one length; for others it raises. The
  result is sorted by descending similarity when no similarity is \<open>nan\<close>. The call
  returns whenever the provider answers with vectors of one dimension and the cache holds
  only such vectors.
\<close>

theorem semantic_search_skips_empty_descriptions:
  assumes "\<forall>xs. mset (nan_order xs) = mset xs"
  shows "(get_or (description q) [] = [] \<longrightarrow>
        semantic_search prov nan_order q vr st = (Inr [], st))
   \<and> (get_or (description q) [] \<noteq> [] \<and>
        semantic_search prov nan_order q vr st = (Inr out, st') \<longrightarrow>
        (\<exists>qe rs. embedding_cache st' (get_or (description q) []) = Some qe \<and>
           list_all2 (scored_by st' qe) rs (filter has_description vr) \<and>
           mset out = mset rs \<and>
           (\<not> has_nan rs \<longrightarrow>
              sorted_wrt (\<lambda>x y. float_value (snd x) \<ge> float_value (snd y)) out)))
   \<and> (dimension_ok d prov st \<longrightarrow>
        (\<exists>out' st''. semantic_search prov nan_order q vr st = (Inr out', st'')))
   \<and> cosine_similarity a b =
        (if length a = length b then Inr (similarity a b) else Inl ValueError)"
proof -
  have "\<exists>qe rs. embedding_cache st' (get_or (description q) []) = Some qe \<and>
           list_all2 (scored_by st' qe) rs (filter has_description vr) \<and>
           mset out = mset rs \<and>
           (\<not> has_nan rs \<longrightarrow>
              sorted_wrt (\<lambda>x y. float_value (snd x) \<ge> float_value (snd y)) out)"
    if "get_or (description q) [] \<noteq> []" "semantic_search prov nan_order q vr st = (Inr out, st')"
  proof -
    from semantic_search_Inr(1) [OF that] obtain qe rs where
      "embedding_cache st' (get_or (description q) []) = Some qe"
      "out = sorted_similarities nan_order rs"
      "list_all2 (scored_by st' qe) rs (filter has_description vr)" by blast
    then show ?thesis
      using mset_sorted_similarities [OF assms, of rs]
        sorted_similarities_sorted [of rs nan_order] by blast
  qed
  then show ?thesis
    using semantic_search_empty_query [of q prov nan_order vr st]
      semantic_search_total [of d prov st nan_order q vr] cosine_similarity_eq [of a b]
    by blast
qed

theorem semantic_search_skips_empty_descriptions_witness:
  "(\<forall>xs::semantic_result list. mset (rev xs) = mset xs)
   \<and> semantic_search scaled_provider rev wildcard_query blank_corpus (init 1 1) =
       (Inr [], init 1 1)
   \<and> get_or (description example_query) [] \<noteq> []
   \<and> dimension_ok 2 scaled_provider (init 1 1)
   \<and> map fst (filter has_description blank_corpus) = [''image1.jpg'', ''image2.jpg'']
   \<and> fst (semantic_search scaled_provider rev example_query blank_corpus (init 1 1)) =
       Inr [(''image2.jpg'', Some 1), (''image1.jpg'', Some (24 / 25))]
   \<and> (\<exists>qe rs.
        embedding_cache (snd (semantic_search scaled_provider rev example_query blank_corpus
          (init 1 1))) (get_or (description example_query) []) = Some qe \<and>
        list_all2 (scored_by (snd (semantic_search scaled_provider rev example_query
          blank_corpus (init 1 1))) qe) rs (filter has_description blank_corpus) \<and>
        mset [(''image2.jpg'', Some 1), (''image1.jpg'', Some (24 / 25))] = mset rs)
   \<and> fst (semantic_search scaled_provider rev example_query example_corpus (init 1 1)) =
       Inr [(''image3.jpg'', None), (''image2.jpg'', Some 1), (''image1.jpg'', Some (24 / 25))]
   \<and> cosine_similarity [3, 4] [4, 3] = Inr (similarity [3, 4] [4, 3])
   \<and> similarity [3, 4] [4, 3] = Some (24 / 25)
   \<and> cosine_similarity [3, 4] [0, 0] = Inr (similarity [3, 4] [0, 0])
   \<and> similarity [3, 4] [0, 0] = None
   \<and> cosine_similarity [3, 4] [1] = Inl ValueError"
proof -
  let ?r = "semantic_search scaled_provider rev example_query blank_corpus (init 1 1)"
  let ?out = "[(''image2.jpg'', Some 1), (''image1.jpg'', Some (24 / 25 :: real))]"
  have p: "\<forall>xs::semantic_result list. mset (rev xs) = mset xs" by simp
  note inst = semantic_search_skips_empty_descriptions [OF p, where prov = scaled_provider
      and vr = blank_corpus and st = "init 1 1"]
  have a: "get_or (description wildcard_query) [] = []"
    by (simp add: wildcard_query_def get_or_def)
  have b: "get_or (description example_query) [] \<noteq> []"
    by (simp add: example_query_def get_or_def)
  have c: "?r = (Inr ?out, snd ?r)"
    using scaled_semantic [of rev 1 1] by (metis prod.collapse)
  have d: "map fst (filter has_description blank_corpus) = [''image1.jpg'', ''image2.jpg'']"
    by (simp add: has_description_def blank_corpus_def image1_def image2_def image3_def
          get_or_def)
  have e: "dimension_ok 2 scaled_provider (init 1 1)" by (rule scaled_dimension_ok)
  have f: "semantic_search scaled_provider rev wildcard_query blank_corpus (init 1 1) =
       (Inr [], init 1 1)"
    using inst [where q = wildcard_query, THEN conjunct1] a by simp
  have g: "\<exists>qe rs.
        embedding_cache (snd ?r) (get_or (description example_query) []) = Some qe \<and>
        list_all2 (scored_by (snd ?r) qe) rs (filter has_description blank_corpus) \<and>
        mset ?out = mset rs"
    using inst [where q = example_query and out = ?out and st' = "snd ?r",
        THEN conjunct2, THEN conjunct1] b c by blast
  have h: "cosine_similarity [3, 4] [4, 3] = Inr (similarity [3, 4] [4, 3])"
    "cosine_similarity [3, 4] [0, 0] = Inr (similarity [3, 4] [0, 0])"
    "cosine_similarity [3, 4] [1] = Inl ValueError"
    using inst [where a = "[3, 4]" and b = "[4, 3]"] inst [where a = "[3, 4]" and b = "[0, 0]"]
      inst [where a = "[3, 4]" and b = "[1]"]
    by simp_all
  show ?thesis
    using p a b d e f g h scaled_semantic [of rev 1 1] scaled_semantic_nan [of 1 1]
      scaled_similarity
    by simp
qed

text \<open>
  C2. Let \<open>hybrid_search\<close> reach its list \<open>sorted_results\<close>, the result before the
  slice. The identifiers of that list are pairwise different and are exactly the keys of
  the keyword mapping together with the keys of the semantic mapping, that is the
  identifiers of the candidates whose \<open>normalized_score\<close> is at least
  \<open>keyword_min_score\<close> and those of the semantic results whose similarity is at least
  \<open>semantic_min_score\<close>. The combined score of each entry is
  \<open>keyword_weight * keyword_score + semantic_weight * semantic_score\<close> with the weights of
  the instance as they are, where a score is read from its channel's mapping and is
  \<open>0.0\<close> when the identifier is not a key there; for a corpus with distinct keys the
  mappings hold the candidate's own scores, and a similarity that is \<open>nan\<close> passes no
  threshold. The default weights are \<open>0.7\<close> and \<open>0.3\<close>. The order in which Python
  iterates over the set of identifiers is any rearrangement \<open>order\<close>. The call reaches
  \<open>sorted_results\<close> whenever the provider answers with vectors of one dimension and the
  cache holds only such vectors.
\<close>

theorem hybrid_search_scores_the_union:
  assumes "\<forall>xs. mset (order xs) = mset xs" and "\<forall>xs. mset (nan_order xs) = mset xs"
  shows "(dimension_ok d prov st \<longrightarrow>
       (\<exists>full' st''. sorted_results lower prov order nan_order q vr kmin smin st =
          (Inr full', st'')))
     \<and> (sorted_results lower prov order nan_order q vr kmin smin st = (Inr full, st') \<longrightarrow>
     (\<exists>sr. semantic_search prov nan_order q vr st = (Inr sr, st') \<and>
     distinct (map fst full) \<and>
     set (map fst full) =
       set (keys (keyword_scores (keyword_search lower q vr kmin))) \<union>
       set (keys (semantic_scores sr smin)) \<and>
     set (keys (keyword_scores (keyword_search lower q vr kmin))) =
       {u. \<exists>v. (u, v) \<in> set vr \<and> normalized_score lower q v \<ge> kmin} \<and>
     set (keys (semantic_scores sr smin)) = {u. \<exists>s. (u, Some s) \<in> set sr \<and> s \<ge> smin} \<and>
     (\<forall>x \<in> set full. fst (snd x) =
        keyword_weight st * dict_get (keyword_scores (keyword_search lower q vr kmin)) (fst x) 0 +
        semantic_weight st * dict_get (semantic_scores sr smin) (fst x) 0) \<and>
     (distinct (map fst vr) \<longrightarrow>
        (\<forall>(u, v) \<in> set vr. dict_get (keyword_scores (keyword_search lower q vr kmin)) u 0 =
           (if normalized_score lower q v \<ge> kmin then normalized_score lower q v else 0)) \<and>
        (\<forall>(u, f) \<in> set sr. dict_get (semantic_scores sr smin) u 0 =
           (case f of None \<Rightarrow> 0 | Some s \<Rightarrow> if s \<ge> smin then s else 0)))))
     \<and> keyword_weight init_default = 7 / 10 \<and> semantic_weight init_default = 3 / 10"
  using sorted_results_union [OF assms, where prov = prov and q = q and vr = vr
      and kmin = kmin and smin = smin and st = st and full = full and st' = st'
      and lower = lower]
    sorted_results_total [where d = d and prov = prov and st = st and order = order
      and q = q and vr = vr and kmin = kmin and smin = smin and lower = lower
      and nan_order = nan_order]
  by (simp add: init_default_def init_def)

theorem hybrid_search_scores_the_union_witness:
  "(\<forall>xs::string list. mset (rev xs) = mset xs) \<and>
   (\<forall>xs::semantic_result list. mset (rev xs) = mset xs) \<and>
   (\<exists>full st'.
      sorted_results ascii_lower example_provider rev rev example_query blank_corpus
        (9 / 10) (1 / 2) init_default = (Inr full, st') \<and>
      distinct (map fst full) \<and>
      set (map fst full) = {''image1.jpg'', ''image2.jpg''} \<and>
      (\<forall>x \<in> set full. fst (snd x) =
         7 / 10 * dict_get [(''image1.jpg'', 1)] (fst x) 0 +
         3 / 10 * dict_get [(''image2.jpg'', 1)] (fst x) 0))"
proof -
  let ?call = "sorted_results ascii_lower example_provider rev rev example_query blank_corpus
        (9 / 10) (1 / 2) init_default"
  have p: "\<forall>xs::semantic_result list. mset (rev xs) = mset xs" by simp
  note inst = hybrid_search_scores_the_union [OF rev_rearranges p,
      where prov = example_provider and lower = ascii_lower
      and q = example_query and vr = blank_corpus and kmin = "9 / 10" and smin = "1 / 2"
      and st = init_default and d = 2]
  have "\<exists>full st'. ?call = (Inr full, st')"
    using inst [THEN conjunct1] example_dimension_ok [of "7 / 10" "3 / 10"]
    by (simp add: init_default_def)
  then obtain full st' where call: "?call = (Inr full, st')" by blast
  from inst [THEN conjunct2, THEN conjunct1, of full st'] call
  obtain sr where sem: "semantic_search example_provider rev example_query blank_corpus
        init_default = (Inr sr, st')"
    and d: "distinct (map fst full)"
    and s: "set (map fst full) =
       set (keys (keyword_scores (keyword_search ascii_lower example_query blank_corpus
         (9 / 10)))) \<union>
       set (keys (semantic_scores sr (1 / 2)))"
    and c: "\<forall>x \<in> set full. fst (snd x) =
        keyword_weight init_default *
          dict_get (keyword_scores (keyword_search ascii_lower example_query blank_corpus
            (9 / 10))) (fst x) 0 +
        semantic_weight init_default * dict_get (semantic_scores sr (1 / 2)) (fst x) 0"
    by blast
  have sr: "sr = [(''image2.jpg'', Some 1), (''image1.jpg'', Some 0)]"
    using sem blank_semantic [of rev "7 / 10" "3 / 10"] by (simp add: init_default_def)
  have w: "keyword_weight init_default = 7 / 10" "semantic_weight init_default = 3 / 10"
    by (simp_all add: init_default_def init_def)
  have "set (map fst full) = {''image1.jpg'', ''image2.jpg''}"
    using s unfolding sr blank_keyword_scores blank_semantic_scores by (auto simp: keys_def)
  moreover have "\<forall>x \<in> set full. fst (snd x) =
         7 / 10 * dict_get [(''image1.jpg'', 1)] (fst x) 0 +
         3 / 10 * dict_get [(''image2.jpg'', 1)] (fst x) 0"
    using c unfolding sr blank_keyword_scores blank_semantic_scores w .
  ultimately show ?thesis using call d by auto
qed

text \<open>
  C4. Both thresholds are hard filters. For a corpus with distinct keys the list that
  \<open>keyword_search\<close> returns contains a candidate if and only if its \<open>normalized_score\<close>
  is at least \<open>min_score\<close>, and the keyword mapping of \<open>hybrid_search\<close> holds exactly
  these candidates with their scores; no entry of the list has a score below
  \<open>min_score\<close>. Every entry of the semantic mapping of \<open>hybrid_search\<close> is a result of
  \<open>semantic_search\<close> whose similarity is a number and at least \<open>semantic_min_score\<close>,
  and for a corpus with distinct keys a candidate of similarity \<open>s\<close> is a key of the
  mapping if and only if \<open>s\<close> is at least \<open>semantic_min_score\<close>; a candidate whose
  similarity is \<open>nan\<close> is not a key. \<open>semantic_search\<close> returns whenever the provider
  answers with vectors of one dimension and the cache holds only such vectors.
\<close>

theorem thresholds_are_hard_filters:
  assumes "\<forall>xs. mset (nan_order xs) = mset xs"
  shows "(distinct (map fst vr) \<and> (u, v) \<in> set vr \<longrightarrow>
      (u \<in> set (map fst (keyword_search lower q vr m))) = (normalized_score lower q v \<ge> m) \<and>
      map_of (keyword_scores (keyword_search lower q vr m)) u =
        (if normalized_score lower q v \<ge> m then Some (normalized_score lower q v) else None))
   \<and> (\<forall>x \<in> set (keyword_search lower q vr m). fst (snd x) \<ge> m)
   \<and> (semantic_search prov nan_order q vr st = (Inr sr, st') \<longrightarrow>
        (\<forall>p \<in> set (semantic_scores sr smin). snd p \<ge> smin \<and> (fst p, Some (snd p)) \<in> set sr) \<and>
        (distinct (map fst vr) \<and> (u, f) \<in> set sr \<longrightarrow>
           map_of (semantic_scores sr smin) u =
             (case f of None \<Rightarrow> None | Some s \<Rightarrow> if s \<ge> smin then Some s else None)))
   \<and> (dimension_ok d prov st \<longrightarrow>
        (\<exists>sr' st''. semantic_search prov nan_order q vr st = (Inr sr', st'')))"
proof -
  have a: "\<forall>x \<in> set (keyword_search lower q vr m). fst (snd x) \<ge> m"
    by (auto simp: keyword_search_set)
  have b: "\<forall>p \<in> set (semantic_scores sr smin). snd p \<ge> smin \<and> (fst p, Some (snd p)) \<in> set sr"
    using semantic_scores_entries [of _ sr smin] by blast
  have c: "map_of (semantic_scores sr smin) u =
             (case f of None \<Rightarrow> None | Some s \<Rightarrow> if s \<ge> smin then Some s else None)"
    if "semantic_search prov nan_order q vr st = (Inr sr, st')" "distinct (map fst vr)"
      "(u, f) \<in> set sr"
    using semantic_scores_lookup [OF semantic_search_distinct [OF assms that(2) that(1)] that(3)] .
  show ?thesis
    using a b c keyword_search_contains [of vr u v lower q m]
      keyword_scores_lookup [of vr u v lower q m]
      semantic_search_total [of d prov st nan_order q vr]
    by blast
qed

theorem thresholds_are_hard_filters_witness:
  "(\<forall>xs::semantic_result list. mset (rev xs) = mset xs) \<and>
   distinct (map fst example_corpus) \<and>
   (''image1.jpg'', image1) \<in> set example_corpus \<and>
   (''image3.jpg'', image3) \<in> set example_corpus \<and>
   normalized_score ascii_lower example_query image1 \<ge> 7 / 10 \<and>
   \<not> normalized_score ascii_lower example_query image3 \<ge> 7 / 10 \<and>
   ''image1.jpg'' \<in> set (map fst (keyword_search ascii_lower example_query example_corpus (7 / 10))) \<and>
   ''image3.jpg'' \<notin> set (map fst (keyword_search ascii_lower example_query example_corpus (7 / 10))) \<and>
   (\<exists>sr st'. semantic_search scaled_provider rev example_query example_corpus init_default =
        (Inr sr, st') \<and>
      (''image1.jpg'', Some (24 / 25)) \<in> set sr \<and> (''image2.jpg'', Some 1) \<in> set sr \<and>
      (''image3.jpg'', None) \<in> set sr \<and>
      map_of (semantic_scores sr (97 / 100)) ''image1.jpg'' = None \<and>
      map_of (semantic_scores sr (97 / 100)) ''image2.jpg'' = Some 1 \<and>
      map_of (semantic_scores sr (97 / 100)) ''image3.jpg'' = None)"
proof -
  have a: "distinct (map fst example_corpus)" "(''image1.jpg'', image1) \<in> set example_corpus"
    "(''image3.jpg'', image3) \<in> set example_corpus"
    by (simp_all add: example_corpus_def)
  have p: "\<forall>xs::semantic_result list. mset (rev xs) = mset xs" by simp
  let ?call = "semantic_search scaled_provider rev example_query example_corpus init_default"
  let ?sr = "[(''image3.jpg'', None), (''image2.jpg'', Some 1),
              (''image1.jpg'', Some (24 / 25 :: real))]"
  have call: "?call = (Inr ?sr, snd ?call)"
    using scaled_semantic_nan [of "7 / 10" "3 / 10"] by (metis init_default_def prod.collapse)
  have b: "(''image1.jpg'', Some (24 / 25)) \<in> set ?sr" "(''image2.jpg'', Some 1) \<in> set ?sr"
    "(''image3.jpg'', None) \<in> set ?sr" by simp_all
  note kw = thresholds_are_hard_filters [OF p, where vr = example_corpus
      and lower = ascii_lower and q = example_query and m = "7 / 10"]
  note sem = thresholds_are_hard_filters [OF p, where vr = example_corpus
      and q = example_query and prov = scaled_provider and st = init_default
      and sr = ?sr and st' = "snd ?call" and smin = "97 / 100"]
  have k: "''image1.jpg'' \<in> set (map fst (keyword_search ascii_lower example_query example_corpus (7 / 10)))"
    "''image3.jpg'' \<notin> set (map fst (keyword_search ascii_lower example_query example_corpus (7 / 10)))"
    using kw [where u = "''image1.jpg''" and v = image1]
      kw [where u = "''image3.jpg''" and v = image3] a example_scores
    by simp_all
  have s: "map_of (semantic_scores ?sr (97 / 100)) ''image1.jpg'' = None"
    "map_of (semantic_scores ?sr (97 / 100)) ''image2.jpg'' = Some 1"
    "map_of (semantic_scores ?sr (97 / 100)) ''image3.jpg'' = None"
    using sem [where u = "''image1.jpg''" and f = "Some (24 / 25)"]
      sem [where u = "''image2.jpg''" and f = "Some 1"]
      sem [where u = "''image3.jpg''" and f = None] a(1) b call
    by simp_all
  show ?thesis
    using p a k s b call example_scores by (intro conjI exI [of _ ?sr] exI [of _ "snd ?call"]) simp_all
qed

text \<open>
  C3. The list that \<open>hybrid_search\<close> returns is the slice \<open>sorted_results[:max_results]\<close>
  of the list of all scored candidates of the union, sorted by descending combined score:
  it is sorted and is a prefix of that list for every \<open>max_results\<close>, and its length is
  at most \<open>max_results\<close> when \<open>max_results\<close> is not negative (lemma
  \<open>hybrid_search_prefix\<close>). The method takes any \<open>int\<close> and validates nothing. At
  \<open>max_results = -1\<close> the slice drops the last entry only: for the query of the example
  and the corpus with a blank description two candidates are ranked and the call
  returns one of them, which is more than \<open>max_results\<close>.
\<close>

theorem hybrid_search_negative_max_results:
  "map_sum id (\<lambda>res. (length res, int (length res) \<le> - 1))
     (fst (hybrid_search ascii_lower example_provider rev rev example_query blank_corpus
        (9 / 10) (1 / 2) (- 1) init_default)) = Inr (1, False)
   \<and> map_sum id length
     (fst (sorted_results ascii_lower example_provider rev rev example_query blank_corpus
        (9 / 10) (1 / 2) init_default)) = Inr 2"
proof -
  from hybrid_search_total [OF example_dimension_ok [of "7 / 10" "3 / 10"],
      where order = rev and nan_order = rev and lower = ascii_lower and q = example_query
        and vr = blank_corpus and kmin = "9 / 10" and smin = "1 / 2" and n = "- 1"]
  obtain res st' where call: "hybrid_search ascii_lower example_provider rev rev example_query
      blank_corpus (9 / 10) (1 / 2) (- 1) init_default = (Inr res, st')"
    by (auto simp: init_default_def)
  from hybrid_search_Inr [OF call] obtain full where
    full: "sorted_results ascii_lower example_provider rev rev example_query blank_corpus
           (9 / 10) (1 / 2) init_default = (Inr full, st')"
    and res: "res = slice_to full (- 1)" by blast
  have "length full = 2" by (rule blank_sorted_results [OF full])
  moreover from this have "length res = 1" unfolding res by (simp add: slice_to_def)
  ultimately show ?thesis by (simp add: call full)
qed

end
